theory Spec2Isabelle
  imports Main
begin

section \<open>Python-Shell: an interactive shell (\<^verbatim>\<open>src/main.py\<close>)\<close>

text \<open>
  The shell is one Python module. Its functions read the operating system (the
  environment, the file system, child processes) and write to streams. The embedding makes
  both explicit:
  \<^item> what the operating system answers is a record \<open>os_env\<close> of functions (which paths can
    be opened, which exist, what a child prints), fixed for the run that is looked at;
  \<^item> what the shell changes is a record \<open>world\<close> (working directory, the text written to
    the standard streams, the file objects opened so far, the processes spawned), passed
    through every function and returned updated;
  \<^item> an exception is a value of \<open>py_error\<close>; a function that may raise returns the error
    (if any) together with the world as it was when the error was raised, since the effects
    made before a raise stay.
  Characters are bytes; every character the shell inspects is ASCII.
\<close>

subsection \<open>Errors, streams and the world\<close>

datatype os_error = FileNotFoundError | PermissionError | NotADirectoryError
  | IsADirectoryError | OtherOSError

datatype py_error = ValueError | IndexError | EOFError | OSError os_error | SystemExit int

datatype open_mode = ModeW | ModeA

datatype stream = SysStdout | SysStderr | FileObj nat

record file_obj =
  f_path :: string
  f_mode :: open_mode
  f_closed :: bool
  f_written :: string

record world =
  w_cwd :: string
  w_stdout :: string
  w_stderr :: string
  w_files :: "file_obj list"
  w_spawned :: "(string list \<times> stream \<times> stream) list"

record os_env =
  env_HOME :: "string option"
  PROGRAMS_IN_PATH :: "string \<rightharpoonup> string"
  open_error :: "string \<Rightarrow> open_mode \<Rightarrow> os_error option"
  path_exists :: "string \<Rightarrow> string \<Rightarrow> os_error + bool"
  chdir_to :: "string \<Rightarrow> string \<Rightarrow> os_error + string"
  popen_error :: "string list \<Rightarrow> os_error option"
  child_output :: "string list \<Rightarrow> string \<times> string"

text \<open>
  \<open>open_error env p m\<close> is the error that \<^verbatim>\<open>open(p, m)\<close> raises, if any;
  \<open>path_exists env d p\<close> is what \<^verbatim>\<open>pathlib.Path(p).exists()\<close> returns in working directory
  \<open>d\<close>, or the error it raises (it raises for a name that is too long or a parent that may
  not be searched, where the path does not exist either);
  \<open>chdir_to env d p\<close> is the working directory after \<^verbatim>\<open>os.chdir(p)\<close> from \<open>d\<close>, or the
  error it raises; \<open>popen_error env argv\<close> is the error \<^verbatim>\<open>subprocess.Popen(argv)\<close> raises,
  if any; \<open>child_output env argv\<close> is what the child writes to its standard output and
  error before it exits.
\<close>

definition newline :: string where
  "newline = [CHR 0x0A]"

definition SHELL_BUILTINS :: "string list" where
  "SHELL_BUILTINS = [''echo'', ''exit'', ''type'', ''pwd'', ''cd'']"

text \<open>\<^verbatim>\<open>f.write(s)\<close>: text is appended to the stream the object stands for.\<close>

fun write_stream :: "stream \<Rightarrow> string \<Rightarrow> world \<Rightarrow> world" where
  "write_stream SysStdout s w = w\<lparr>w_stdout := w_stdout w @ s\<rparr>"
| "write_stream SysStderr s w = w\<lparr>w_stderr := w_stderr w @ s\<rparr>"
| "write_stream (FileObj h) s w =
     w\<lparr>w_files := (w_files w)[h := (w_files w ! h)\<lparr>f_written := f_written (w_files w ! h) @ s\<rparr>]\<rparr>"

text \<open>
  \<^verbatim>\<open>open(path, mode)\<close>: raises what the operating system reports, or returns a new file
  object, which is open and has nothing written through it yet.
\<close>

definition py_open :: "os_env \<Rightarrow> string \<Rightarrow> open_mode \<Rightarrow> world \<Rightarrow> py_error + (stream \<times> world)" where
  "py_open env p m w =
     (case open_error env p m of
        Some e \<Rightarrow> Inl (OSError e)
      | None \<Rightarrow> Inr (FileObj (length (w_files w)),
                     w\<lparr>w_files := w_files w @
                        [\<lparr>f_path = p, f_mode = m, f_closed = False, f_written = []\<rparr>]\<rparr>))"

text \<open>
  \<^verbatim>\<open>f.close()\<close>. The shell calls it only on objects that \<^verbatim>\<open>open\<close> returned (the flags
  \<^verbatim>\<open>close_out\<close> and \<^verbatim>\<open>close_err\<close> are set only next to such an assignment).
\<close>

fun py_close :: "stream \<Rightarrow> world \<Rightarrow> world" where
  "py_close (FileObj h) w = w\<lparr>w_files := (w_files w)[h := (w_files w ! h)\<lparr>f_closed := True\<rparr>]\<rparr>"
| "py_close s w = w"

subsection \<open>\<^verbatim>\<open>shlex.split\<close> (standard library, POSIX mode)\<close>

text \<open>
  \<^verbatim>\<open>shlex.split(s)\<close> builds a lexer with \<^verbatim>\<open>posix=True\<close>, \<^verbatim>\<open>whitespace_split=True\<close>,
  no comment characters and no punctuation characters, and collects its tokens.
  \<open>read_tokens\<close> is \<^verbatim>\<open>shlex.read_token\<close> under these settings, run until the input is used
  up: \<open>st\<close> is \<^verbatim>\<open>self.state\<close> (a blank, \<^verbatim>\<open>'a'\<close>, a quote character or the escape
  character), \<open>es\<close> is \<^verbatim>\<open>escapedstate\<close>, \<open>quoted\<close> and \<open>tok\<close> are \<^verbatim>\<open>quoted\<close> and
  \<^verbatim>\<open>self.token\<close>. Where the library breaks out of its loop the token is emitted and the
  next call starts with an empty token, \<^verbatim>\<open>quoted = False\<close> and \<^verbatim>\<open>escapedstate = ' '\<close>.
  The branch for word characters and the branch for \<^verbatim>\<open>whitespace_split\<close> do the same
  thing (no word character is a quote or the escape character), so they are one branch here.
\<close>

definition whitespace :: string where
  "whitespace = [CHR '' '', CHR 0x09, CHR 0x0D, CHR 0x0A]"

definition quotes :: string where
  "quotes = [CHR 0x27, CHR 0x22]"

definition escape :: string where
  "escape = [CHR 0x5C]"

definition escapedquotes :: string where
  "escapedquotes = [CHR 0x22]"

text \<open>
  The end of \<^verbatim>\<open>read_token\<close>: an empty token that was not quoted is the end-of-input
  marker \<^verbatim>\<open>None\<close>, at which \<^verbatim>\<open>list(lex)\<close> stops; any other token is kept.
\<close>

definition emit :: "bool \<Rightarrow> string \<Rightarrow> py_error + string list \<Rightarrow> py_error + string list" where
  "emit quoted tok rest =
     (if \<not> quoted \<and> tok = [] then Inr []
      else (case rest of Inl e \<Rightarrow> Inl e | Inr ts \<Rightarrow> Inr (tok # ts)))"

fun read_tokens :: "char \<Rightarrow> char \<Rightarrow> bool \<Rightarrow> string \<Rightarrow> string \<Rightarrow> py_error + string list" where
  "read_tokens st es quoted tok [] =
     (if st = CHR '' '' then emit quoted tok (Inr [])
      else if st \<in> set quotes then Inl ValueError
      else if st \<in> set escape then Inl ValueError
      else emit quoted tok (Inr []))"
| "read_tokens st es quoted tok (c # cs) =
     (if st = CHR '' '' then
        (if c \<in> set whitespace then
           (if tok \<noteq> [] \<or> quoted then emit quoted tok (read_tokens st (CHR '' '') False [] cs)
            else read_tokens st es quoted tok cs)
         else if c \<in> set escape then read_tokens c (CHR ''a'') quoted tok cs
         else if c \<in> set quotes then read_tokens c es quoted tok cs
         else read_tokens (CHR ''a'') es quoted [c] cs)
      else if st \<in> set quotes then
        (if c = st then read_tokens (CHR ''a'') es True tok cs
         else if c \<in> set escape \<and> st \<in> set escapedquotes then read_tokens c st True tok cs
         else read_tokens st es True (tok @ [c]) cs)
      else if st \<in> set escape then
        read_tokens es es quoted
          (tok @ (if es \<in> set quotes \<and> c \<noteq> st \<and> c \<noteq> es then [st] else []) @ [c]) cs
      else
        (if c \<in> set whitespace then
           (if tok \<noteq> [] \<or> quoted
            then emit quoted tok (read_tokens (CHR '' '') (CHR '' '') False [] cs)
            else read_tokens (CHR '' '') es quoted tok cs)
         else if c \<in> set quotes then read_tokens c es quoted tok cs
         else if c \<in> set escape then read_tokens c (CHR ''a'') quoted tok cs
         else read_tokens st es quoted (tok @ [c]) cs))"

definition shlex_split :: "string \<Rightarrow> py_error + string list" where
  "shlex_split s = read_tokens (CHR '' '') (CHR '' '') False [] s"

subsection \<open>Strings and lists of the Python library\<close>

text \<open>\<^verbatim>\<open>' '.join(xs)\<close>.\<close>

fun join_space :: "string list \<Rightarrow> string" where
  "join_space [] = []"
| "join_space [x] = x"
| "join_space (x # y # ys) = x @ '' '' @ join_space (y # ys)"

text \<open>\<^verbatim>\<open>xs.index(x)\<close>: the first position of \<open>x\<close>; \<open>None\<close> where Python raises ValueError.\<close>

fun list_index :: "'a list \<Rightarrow> 'a \<Rightarrow> nat option" where
  "list_index [] x = None"
| "list_index (y # ys) x = (if y = x then Some 0 else map_option Suc (list_index ys x))"

text \<open>
  \<^verbatim>\<open>s.replace(old, new)\<close>: every occurrence of \<open>old\<close>, found from the left without
  overlap, becomes \<open>new\<close>.
\<close>

function py_replace :: "string \<Rightarrow> string \<Rightarrow> string \<Rightarrow> string" where
  "py_replace old new [] = (if old = [] then new else [])"
| "py_replace old new (c # cs) =
     (if old = [] then new @ c # py_replace old new cs
      else if take (length old) (c # cs) = old
        then new @ py_replace old new (drop (length old) (c # cs))
      else c # py_replace old new cs)"
  by pat_completeness auto
termination
  by (relation "measure (\<lambda>(old, new, s). length s)") auto

text \<open>\<^verbatim>\<open>s.startswith(p)\<close>.\<close>

definition startswith :: "string \<Rightarrow> string \<Rightarrow> bool" where
  "startswith s p = (take (length p) s = p)"

text \<open>\<^verbatim>\<open>s.split(sep)\<close> for a separator of one character.\<close>

fun split_on :: "char \<Rightarrow> string \<Rightarrow> string list" where
  "split_on sep [] = [[]]"
| "split_on sep (c # cs) =
     (if c = sep then [] # split_on sep cs
      else (case split_on sep cs of [] \<Rightarrow> [[c]] | x # xs \<Rightarrow> (c # x) # xs))"

subsection \<open>Building the index of programs (\<^verbatim>\<open>parse_programs_in_path\<close>)\<close>

text \<open>
  One entry of a directory listing: the name, the path of the entry, and the two tests the
  source makes on it. \<^verbatim>\<open>entry.is_file()\<close> returns a truth value or raises (it raises
  PermissionError for an entry of a directory that may be listed but not searched);
  \<^verbatim>\<open>os.access(entry, os.X_OK)\<close> returns a truth value.
  \<open>iterdir d\<close> is the listing \<^verbatim>\<open>pathlib.Path(d).iterdir()\<close> yields, or the error it raises;
  the listing is read by one system call, so that error comes before any entry.
\<close>

record dir_entry =
  e_name :: string
  e_path :: string
  e_is_file :: "os_error + bool"
  e_x_ok :: bool

definition pathsep :: char where
  "pathsep = CHR '':''"

text \<open>
  Lines 23 to 25: the inner loop over the entries of one directory. An error of
  \<^verbatim>\<open>is_file\<close> leaves the loop with the dictionary as filled so far.
\<close>

fun add_entries :: "dir_entry list \<Rightarrow> (string \<rightharpoonup> string) \<Rightarrow>
    os_error option \<times> (string \<rightharpoonup> string)" where
  "add_entries [] programs = (None, programs)"
| "add_entries (entry # entries) programs =
     (case e_is_file entry of
        Inl e \<Rightarrow> (Some e, programs)
      | Inr is_file \<Rightarrow>
          add_entries entries
            (if is_file \<and> e_x_ok entry then programs(e_name entry \<mapsto> e_path entry)
             else programs))"

text \<open>
  Lines 21 to 27: the loop over the directories. The \<^verbatim>\<open>try\<close> holds the listing and the
  inner loop; only \<^verbatim>\<open>FileNotFoundError\<close> is caught, and then the next directory is taken.
  Any other error leaves the loop and the function, with the dictionary as filled so far.
\<close>

fun scan_dirs :: "(string \<Rightarrow> os_error + dir_entry list) \<Rightarrow> string list \<Rightarrow>
    (string \<rightharpoonup> string) \<Rightarrow> py_error option \<times> (string \<rightharpoonup> string)" where
  "scan_dirs iterdir [] programs = (None, programs)"
| "scan_dirs iterdir (dir # dirs) programs =
     (case iterdir dir of
        Inl FileNotFoundError \<Rightarrow> scan_dirs iterdir dirs programs
      | Inl e \<Rightarrow> (Some (OSError e), programs)
      | Inr entries \<Rightarrow>
          (case add_entries entries programs of
             (None, programs') \<Rightarrow> scan_dirs iterdir dirs programs'
           | (Some FileNotFoundError, programs') \<Rightarrow> scan_dirs iterdir dirs programs'
           | (Some e, programs') \<Rightarrow> (Some (OSError e), programs')))"

definition parse_programs_in_path :: "(string \<Rightarrow> os_error + dir_entry list) \<Rightarrow> string \<Rightarrow>
    (string \<rightharpoonup> string) \<Rightarrow> py_error option \<times> (string \<rightharpoonup> string)" where
  "parse_programs_in_path iterdir path programs =
     scan_dirs iterdir (split_on pathsep path) programs"

subsection \<open>The builtins and the dispatcher\<close>

text \<open>
  Every function below returns the error it raised, if any, and the world. The parameter
  \<open>err\<close> is kept as in the source, where no builtin writes to it.
\<close>

definition type_command :: "os_env \<Rightarrow> string \<Rightarrow> stream \<Rightarrow> stream \<Rightarrow> world \<Rightarrow>
    py_error option \<times> world" where
  "type_command env command out err w =
     (if command \<in> set SHELL_BUILTINS
        then (None, write_stream out (command @ '' is a shell builtin'' @ newline) w)
      else (case PROGRAMS_IN_PATH env command of
              Some p \<Rightarrow> (None, write_stream out (command @ '' is '' @ p @ newline) w)
            | None \<Rightarrow> (None, write_stream out (command @ '': not found'' @ newline) w)))"

text \<open>\<^verbatim>\<open>os.getenv("HOME") or "/root"\<close>: the empty string is false in Python.\<close>

definition home_dir :: "os_env \<Rightarrow> string" where
  "home_dir env =
     (case env_HOME env of None \<Rightarrow> ''/root'' | Some h \<Rightarrow> if h = [] then ''/root'' else h)"

text \<open>Lines 121 to 123 of \<^verbatim>\<open>cd\<close>: the value of \<^verbatim>\<open>path\<close> after the substitution.\<close>

definition cd_path :: "os_env \<Rightarrow> string \<Rightarrow> string" where
  "cd_path env path =
     (if startswith path ''~'' then py_replace ''~'' (home_dir env) path else path)"

definition cd :: "os_env \<Rightarrow> string \<Rightarrow> stream \<Rightarrow> stream \<Rightarrow> world \<Rightarrow> py_error option \<times> world" where
  "cd env path out err w =
     (let p = cd_path env path in
      case path_exists env (w_cwd w) p of
        Inl e \<Rightarrow> (Some (OSError e), w)
      | Inr exists \<Rightarrow>
          if \<not> exists
            then (None,
                  write_stream out (''cd: '' @ p @ '': No such file or directory'' @ newline) w)
          else (case chdir_to env (w_cwd w) p of
                  Inl e \<Rightarrow> (Some (OSError e), w)
                | Inr d \<Rightarrow> (None, w\<lparr>w_cwd := d\<rparr>)))"

text \<open>
  Lines 106 and 107: the child gets \<open>out\<close> and \<open>err\<close> as its standard output and error,
  and the shell waits for it.
\<close>

definition run_program :: "os_env \<Rightarrow> string list \<Rightarrow> stream \<Rightarrow> stream \<Rightarrow> world \<Rightarrow>
    py_error option \<times> world" where
  "run_program env argv out err w =
     (case popen_error env argv of
        Some e \<Rightarrow> (Some (OSError e), w)
      | None \<Rightarrow>
          (None, write_stream err (snd (child_output env argv))
                   (write_stream out (fst (child_output env argv))
                      (w\<lparr>w_spawned := w_spawned w @ [(argv, out, err)]\<rparr>))))"

text \<open>Line 109, the last case of the \<^verbatim>\<open>match\<close>.\<close>

definition command_not_found :: "string list \<Rightarrow> stream \<Rightarrow> world \<Rightarrow> py_error option \<times> world" where
  "command_not_found command out w =
     (None, write_stream out (join_space command @ '': command not found'' @ newline) w)"

text \<open>The \<^verbatim>\<open>match\<close> statement of \<^verbatim>\<open>handle_all\<close>, its cases in the order of the source.\<close>

definition handle_all :: "os_env \<Rightarrow> string list \<Rightarrow> stream \<Rightarrow> stream \<Rightarrow> world \<Rightarrow>
    py_error option \<times> world" where
  "handle_all env cmds out err w =
     (case cmds of
        [] \<Rightarrow> command_not_found cmds out w
      | cmd # args \<Rightarrow>
          if cmd = ''echo'' then (None, write_stream out (join_space args @ newline) w)
          else if cmd = ''type'' \<and> length args = 1 then type_command env (hd args) out err w
          else if cmd = ''exit'' \<and> args = [''0''] then (Some (SystemExit 0), w)
          else if cmd = ''pwd'' \<and> args = [] then (None, write_stream out (w_cwd w @ newline) w)
          else if cmd = ''cd'' \<and> length args = 1 then cd env (hd args) out err w
          else if PROGRAMS_IN_PATH env cmd \<noteq> None then run_program env (cmd # args) out err w
          else command_not_found cmds out w)"

subsection \<open>The loop of \<^verbatim>\<open>main\<close>\<close>

text \<open>The local variables of one turn of the loop.\<close>

record locals =
  l_cmds :: "string list"
  l_out :: stream
  l_err :: stream
  l_close_out :: bool
  l_close_err :: bool

definition locals0 :: "string list \<Rightarrow> locals" where
  "locals0 cmds = \<lparr>l_cmds = cmds, l_out = SysStdout, l_err = SysStderr,
     l_close_out = False, l_close_err = False\<rparr>"

type_synonym step_result = "py_error option \<times> locals \<times> world"

text \<open>Sequencing: a statement after one that raised is not run.\<close>

definition and_then :: "step_result \<Rightarrow> (locals \<Rightarrow> world \<Rightarrow> step_result) \<Rightarrow> step_result" where
  "and_then r f = (case r of (None, fr, w) \<Rightarrow> f fr w | (Some e, fr, w) \<Rightarrow> (Some e, fr, w))"

text \<open>
  CPython counts references, and a file object that nothing refers to any more is closed
  at once. \<^verbatim>\<open>out\<close> and \<^verbatim>\<open>err\<close> hold the only reference to an object \<^verbatim>\<open>open\<close> returned,
  so an assignment to one of them closes the file object it named before;
  \<^verbatim>\<open>sys.stdout\<close> and \<^verbatim>\<open>sys.stderr\<close> stay referenced by the module \<^verbatim>\<open>sys\<close>.
\<close>

definition drop_reference :: "stream \<Rightarrow> world \<Rightarrow> world" where
  "drop_reference old w = (case old of FileObj h \<Rightarrow> py_close (FileObj h) w | _ \<Rightarrow> w)"

text \<open>
  The four statements each branch of lines 56 to 85 consists of, for the operator \<open>op\<close>:
  \<^verbatim>\<open>out_index = cmds.index(op)\<close>, the \<^verbatim>\<open>open\<close> of \<^verbatim>\<open>cmds[out_index + 1]\<close> (an index
  past the end raises IndexError) with the assignment of its result, the flag, and the two
  slices. \<open>to_err\<close> tells whether the branch assigns \<^verbatim>\<open>err\<close> and \<^verbatim>\<open>close_err\<close>, or \<^verbatim>\<open>out\<close>
  and \<^verbatim>\<open>close_out\<close>.
\<close>

definition redirect :: "os_env \<Rightarrow> string \<Rightarrow> bool \<Rightarrow> open_mode \<Rightarrow> locals \<Rightarrow> world \<Rightarrow> step_result" where
  "redirect env op to_err mode fr w =
     (case list_index (l_cmds fr) op of
        None \<Rightarrow> (Some ValueError, fr, w)
      | Some out_index \<Rightarrow>
          if length (l_cmds fr) \<le> out_index + 1 then (Some IndexError, fr, w)
          else (case py_open env (l_cmds fr ! (out_index + 1)) mode w of
                  Inl e \<Rightarrow> (Some e, fr, w)
                | Inr (f, w') \<Rightarrow>
                    (None,
                     (if to_err then fr\<lparr>l_err := f, l_close_err := True\<rparr>
                      else fr\<lparr>l_out := f, l_close_out := True\<rparr>)
                       \<lparr>l_cmds := take out_index (l_cmds fr) @ drop (out_index + 2) (l_cmds fr)\<rparr>,
                     drop_reference (if to_err then l_err fr else l_out fr) w')))"

text \<open>Lines 56 to 65.\<close>

definition redirect_stdout_w :: "os_env \<Rightarrow> locals \<Rightarrow> world \<Rightarrow> step_result" where
  "redirect_stdout_w env fr w =
     (if ''>'' \<in> set (l_cmds fr) then redirect env ''>'' False ModeW fr w
      else if ''1>'' \<in> set (l_cmds fr) then redirect env ''1>'' False ModeW fr w
      else (None, fr, w))"

text \<open>Lines 66 to 70.\<close>

definition redirect_stderr_w :: "os_env \<Rightarrow> locals \<Rightarrow> world \<Rightarrow> step_result" where
  "redirect_stderr_w env fr w =
     (if ''2>'' \<in> set (l_cmds fr) then redirect env ''2>'' True ModeW fr w else (None, fr, w))"

text \<open>Lines 71 to 80.\<close>

definition redirect_stdout_a :: "os_env \<Rightarrow> locals \<Rightarrow> world \<Rightarrow> step_result" where
  "redirect_stdout_a env fr w =
     (if ''>>'' \<in> set (l_cmds fr) then redirect env ''>>'' False ModeA fr w
      else if ''1>>'' \<in> set (l_cmds fr) then redirect env ''1>>'' False ModeA fr w
      else (None, fr, w))"

text \<open>Lines 81 to 85.\<close>

definition redirect_stderr_a :: "os_env \<Rightarrow> locals \<Rightarrow> world \<Rightarrow> step_result" where
  "redirect_stderr_a env fr w =
     (if ''2>>'' \<in> set (l_cmds fr) then redirect env ''2>>'' True ModeA fr w else (None, fr, w))"

text \<open>Lines 56 to 85: the four statements in sequence.\<close>

definition redirections :: "os_env \<Rightarrow> locals \<Rightarrow> world \<Rightarrow> step_result" where
  "redirections env fr w =
     and_then (and_then (and_then (redirect_stdout_w env fr w) (redirect_stderr_w env))
       (redirect_stdout_a env)) (redirect_stderr_a env)"

text \<open>Lines 56 to 86, the body of the \<^verbatim>\<open>try\<close>: the call of \<^verbatim>\<open>handle_all\<close> comes last.\<close>

definition try_body :: "os_env \<Rightarrow> locals \<Rightarrow> world \<Rightarrow> step_result" where
  "try_body env fr w =
     and_then (redirections env fr w)
       (\<lambda>fr' w'. case handle_all env (l_cmds fr') (l_out fr') (l_err fr') w' of
                   (e, w'') \<Rightarrow> (e, fr', w''))"

text \<open>Lines 88 to 91, the \<^verbatim>\<open>finally\<close> clause, run with the locals as they are then.\<close>

definition finally_close :: "locals \<Rightarrow> world \<Rightarrow> world" where
  "finally_close fr w =
     (let w1 = (if l_close_out fr then py_close (l_out fr) w else w)
      in if l_close_err fr then py_close (l_err fr) w1 else w1)"

text \<open>
  Lines 52 to 91: one turn of the loop after the prompt, for the line \<^verbatim>\<open>input()\<close> returned.
  An error of \<^verbatim>\<open>shlex.split\<close> is raised outside the \<^verbatim>\<open>try\<close>; an error inside it is raised
  again after the \<^verbatim>\<open>finally\<close> clause. There is no \<^verbatim>\<open>except\<close> clause.
\<close>

definition loop_body :: "os_env \<Rightarrow> string \<Rightarrow> world \<Rightarrow> py_error option \<times> world" where
  "loop_body env line w =
     (case shlex_split line of
        Inl e \<Rightarrow> (Some e, w)
      | Inr cmds \<Rightarrow>
          (case try_body env (locals0 cmds) w of
             (e, fr, w') \<Rightarrow> (e, finally_close fr w')))"

text \<open>
  \<^verbatim>\<open>main\<close>: the loop never ends by itself, so \<^verbatim>\<open>main\<close> ends with the first error that
  reaches it. The standard input is the list of the lines that are left; \<^verbatim>\<open>input()\<close>
  raises EOFError when there is none.
\<close>

fun main :: "os_env \<Rightarrow> string list \<Rightarrow> world \<Rightarrow> py_error \<times> world" where
  "main env [] w = (EOFError, write_stream SysStdout ''$ '' w)"
| "main env (line # rest) w =
     (case loop_body env line (write_stream SysStdout ''$ '' w) of
        (Some e, w') \<Rightarrow> (e, w')
      | (None, w') \<Rightarrow> main env rest w')"

subsection \<open>Notions the properties are stated with\<close>

text \<open>The six tokens lines 56 to 85 look for.\<close>

definition redir_ops :: "string list" where
  "redir_ops = [''>'', ''1>'', ''>>'', ''1>>'', ''2>'', ''2>>'']"

text \<open>
  Unbalanced quoting in the words of the specification (an unterminated single or double
  quote), written without the lexer above: \<open>open_quote q s\<close> is the quote character
  that is still open after \<open>s\<close>, when \<open>q\<close> was open before it. Outside
  quotes a backslash takes the next character with it; inside double quotes it does so
  too; inside single quotes it is an ordinary character.
\<close>

fun open_quote :: "char option \<Rightarrow> string \<Rightarrow> char option" where
  "open_quote q [] = q"
| "open_quote None (c # cs) =
     (if c = CHR 0x5C then (case cs of [] \<Rightarrow> None | d # ds \<Rightarrow> open_quote None ds)
      else if c = CHR 0x27 \<or> c = CHR 0x22 then open_quote (Some c) cs
      else open_quote None cs)"
| "open_quote (Some q) (c # cs) =
     (if c = q then open_quote None cs
      else if c = CHR 0x5C \<and> q = CHR 0x22
        then (case cs of [] \<Rightarrow> Some q | d # ds \<Rightarrow> open_quote (Some q) ds)
      else open_quote (Some q) cs)"

definition unterminated_quote :: "string \<Rightarrow> bool" where
  "unterminated_quote line = (open_quote None line \<noteq> None)"

text \<open>
  The quote that is open for the lexer in state \<open>st\<close> with \<^verbatim>\<open>escapedstate\<close> \<open>es\<close>, and
  whether the rest \<open>cs\<close> of the line leaves a quote open from there. In the escape state
  the next character is taken whatever it is.
\<close>

definition quote_of :: "char \<Rightarrow> char option" where
  "quote_of st = (if st \<in> set quotes then Some st else None)"

definition leaves_open :: "char \<Rightarrow> char \<Rightarrow> string \<Rightarrow> bool" where
  "leaves_open st es cs =
     (if st \<in> set escape
        then (case cs of [] \<Rightarrow> True | d # ds \<Rightarrow> open_quote (quote_of es) ds \<noteq> None)
      else open_quote (quote_of st) cs \<noteq> None)"

text \<open>
  The token sequences the first five cases of the \<^verbatim>\<open>match\<close> in \<^verbatim>\<open>handle_all\<close> accept:
  \<^verbatim>\<open>["echo", *s]\<close>, \<^verbatim>\<open>["type", s]\<close>, \<^verbatim>\<open>["exit", "0"]\<close>, \<^verbatim>\<open>["pwd"]\<close>, \<^verbatim>\<open>["cd", dir]\<close>.
\<close>

definition builtin_form :: "string list \<Rightarrow> bool" where
  "builtin_form cmds =
     (case cmds of
        [] \<Rightarrow> False
      | cmd # args \<Rightarrow>
          cmd = ''echo'' \<or> (cmd = ''type'' \<and> length args = 1) \<or> (cmd = ''exit'' \<and> args = [''0''])
          \<or> (cmd = ''pwd'' \<and> args = []) \<or> (cmd = ''cd'' \<and> length args = 1))"

text \<open>
  The tokens \<^verbatim>\<open>handle_all\<close> is called with for a line, if the line gets that far
  (\<open>try_body\<close> passes \<open>l_cmds\<close> as \<open>redirections\<close> leaves it).
\<close>

definition dispatched_tokens :: "os_env \<Rightarrow> string \<Rightarrow> world \<Rightarrow> string list option" where
  "dispatched_tokens env line w =
     (case shlex_split line of
        Inl e \<Rightarrow> None
      | Inr cmds \<Rightarrow>
          (case redirections env (locals0 cmds) w of
             (None, fr, w') \<Rightarrow> Some (l_cmds fr)
           | (Some e, fr, w') \<Rightarrow> None))"

text \<open>
  A line as its writer means it: words, and redirections, each an operator with the token
  after it, its target. \<open>tokens_of\<close> gives the tokens such a line consists of. The line is
  well formed when no word and no target is itself an operator token.
\<close>

datatype item = Word string | Redir string string

fun tokens_of :: "item list \<Rightarrow> string list" where
  "tokens_of [] = []"
| "tokens_of (Word s # items) = s # tokens_of items"
| "tokens_of (Redir rop tgt # items) = rop # tgt # tokens_of items"

fun words :: "item list \<Rightarrow> string list" where
  "words [] = []"
| "words (Word s # items) = s # words items"
| "words (Redir rop tgt # items) = words items"

fun redirs :: "item list \<Rightarrow> (string \<times> string) list" where
  "redirs [] = []"
| "redirs (Word s # items) = redirs items"
| "redirs (Redir rop tgt # items) = (rop, tgt) # redirs items"

fun wf_items :: "item list \<Rightarrow> bool" where
  "wf_items [] = True"
| "wf_items (Word s # items) = (s \<notin> set redir_ops \<and> wf_items items)"
| "wf_items (Redir rop tgt # items) =
     (rop \<in> set redir_ops \<and> tgt \<notin> set redir_ops \<and> wf_items items)"

text \<open>The operators that occur in a line.\<close>

definition ops_of :: "item list \<Rightarrow> string set" where
  "ops_of items = fst ` set (redirs items)"

text \<open>
  The mode an operator opens its target with, and the place among the four statements of
  lines 56 to 85 of the one that looks for it.
\<close>

definition mode_of :: "string \<Rightarrow> open_mode" where
  "mode_of rop = (if rop = ''>>'' \<or> rop = ''1>>'' \<or> rop = ''2>>'' then ModeA else ModeW)"

definition step_of :: "string \<Rightarrow> nat" where
  "step_of rop =
     (if rop = ''>'' \<or> rop = ''1>'' then 1 else if rop = ''2>'' then 2
      else if rop = ''>>'' \<or> rop = ''1>>'' then 3 else 4)"

text \<open>
  The first redirection with operator \<open>rop\<close> taken out of a line: its target and the line
  that is left.
\<close>

fun remove_redir :: "string \<Rightarrow> item list \<Rightarrow> (string \<times> item list) option" where
  "remove_redir rop [] = None"
| "remove_redir rop (Word s # items) =
     map_option (\<lambda>(tgt, rest). (tgt, Word s # rest)) (remove_redir rop items)"
| "remove_redir rop (Redir rop' tgt' # items) =
     (if rop' = rop then Some (tgt', items)
      else map_option (\<lambda>(tgt, rest). (tgt, Redir rop' tgt' # rest)) (remove_redir rop items))"

text \<open>
  The four statements of lines 56 to 85 have one shape: look for \<open>a\<close>, else for \<open>b\<close>
  (for the error channel \<open>b\<close> is \<open>a\<close>). \<open>run_steps\<close> runs a list of such statements
  one after the other.
\<close>

type_synonym step = "string \<times> string \<times> bool \<times> open_mode"

fun step_fn :: "os_env \<Rightarrow> step \<Rightarrow> locals \<Rightarrow> world \<Rightarrow> step_result" where
  "step_fn env (a, b, to_err, mode) fr w =
     (if a \<in> set (l_cmds fr) then redirect env a to_err mode fr w
      else if b \<in> set (l_cmds fr) then redirect env b to_err mode fr w
      else (None, fr, w))"

fun run_steps :: "os_env \<Rightarrow> step list \<Rightarrow> locals \<Rightarrow> world \<Rightarrow> step_result" where
  "run_steps env [] fr w = (None, fr, w)"
| "run_steps env (s # ss) fr w = and_then (step_fn env s fr w) (run_steps env ss)"

definition alts :: "step \<Rightarrow> string set" where
  "alts s = {fst s, fst (snd s)}"

definition smode :: "step \<Rightarrow> open_mode" where
  "smode s = snd (snd (snd s))"

definition the_steps :: "step list" where
  "the_steps = [(''>'', ''1>'', False, ModeW), (''2>'', ''2>'', True, ModeW),
     (''>>'', ''1>>'', False, ModeA), (''2>>'', ''2>>'', True, ModeA)]"

text \<open>Tokens are only taken out: no token occurs more often after than before.\<close>

definition shrinks :: "string list \<Rightarrow> string list \<Rightarrow> bool" where
  "shrinks cmds cmds' \<longleftrightarrow> (\<forall>t. count_list cmds' t \<le> count_list cmds t)"

text \<open>
  The files opened so far, each with its path and mode; and the files the redirections
  \<open>rs\<close> of a line ask for: the target of each, with the mode of its operator, in the
  order of the statements that look for the operators.
\<close>

definition opened :: "world \<Rightarrow> (string \<times> open_mode) list" where
  "opened w = map (\<lambda>f. (f_path f, f_mode f)) (w_files w)"

definition opened_for :: "(string \<times> string) list \<Rightarrow> (string \<times> open_mode) list" where
  "opened_for rs =
     map (\<lambda>(rop, tgt). (tgt, mode_of rop))
       (concat (map (\<lambda>k. filter (\<lambda>(rop, tgt). step_of rop = k) rs) [1, 2, 3, 4]))"

text \<open>
  What the extraction and the \<^verbatim>\<open>finally\<close> clause leave alone: the text on the standard
  streams, the working directory and the processes spawned.
\<close>

definition io_unchanged :: "world \<Rightarrow> world \<Rightarrow> bool" where
  "io_unchanged w w' \<longleftrightarrow>
     w_stdout w' = w_stdout w \<and> w_stderr w' = w_stderr w \<and> w_cwd w' = w_cwd w
     \<and> w_spawned w' = w_spawned w"

text \<open>
  The file objects during one turn of the loop, \<open>old\<close> being those that were there when
  it began: they are untouched; a stream variable names a file object of this turn exactly
  when its flag is set; and a file object of this turn that is not closed is named by
  \<^verbatim>\<open>out\<close> or \<^verbatim>\<open>err\<close>.
\<close>

definition own_stream :: "nat \<Rightarrow> nat \<Rightarrow> stream \<Rightarrow> bool \<Rightarrow> bool" where
  "own_stream n m s flag = (case s of FileObj h \<Rightarrow> n \<le> h \<and> h < m \<and> flag | _ \<Rightarrow> \<not> flag)"

definition files_inv :: "file_obj list \<Rightarrow> locals \<Rightarrow> world \<Rightarrow> bool" where
  "files_inv old fr w \<longleftrightarrow>
     length old \<le> length (w_files w) \<and> take (length old) (w_files w) = old
     \<and> own_stream (length old) (length (w_files w)) (l_out fr) (l_close_out fr)
     \<and> own_stream (length old) (length (w_files w)) (l_err fr) (l_close_err fr)
     \<and> (\<forall>k. length old \<le> k \<and> k < length (w_files w) \<and> \<not> f_closed (w_files w ! k)
           \<longrightarrow> l_out fr = FileObj k \<or> l_err fr = FileObj k)"

text \<open>
  What \<^verbatim>\<open>handle_all\<close> may do to the file objects: write through the two it was given.
\<close>

definition only_written :: "stream \<Rightarrow> stream \<Rightarrow> world \<Rightarrow> world \<Rightarrow> bool" where
  "only_written out err w w' \<longleftrightarrow>
     length (w_files w') = length (w_files w)
     \<and> (\<forall>k < length (w_files w).
           f_closed (w_files w' ! k) = f_closed (w_files w ! k)
           \<and> (out \<noteq> FileObj k \<and> err \<noteq> FileObj k \<longrightarrow> w_files w' ! k = w_files w ! k))"

subsection \<open>An example system\<close>

text \<open>
  A system in which \<^verbatim>\<open>HOME\<close> is \<^verbatim>\<open>/home/u\<close>, the only program on the search path is
  \<^verbatim>\<open>/bin/ls\<close>, nothing below \<^verbatim>\<open>/nodir/\<close> can be opened, the existence check raises for
  what is below \<^verbatim>\<open>/locked/\<close>, and \<^verbatim>\<open>/tmp\<close> is the only path that exists; and a shell that
  has just started in \<^verbatim>\<open>/\<close>.
\<close>

definition example_env :: os_env where
  "example_env = \<lparr>env_HOME = Some ''/home/u'', PROGRAMS_IN_PATH = [''ls'' \<mapsto> ''/bin/ls''],
     open_error = (\<lambda>p m. if take 7 p = ''/nodir/'' then Some FileNotFoundError else None),
     path_exists = (\<lambda>d p. if take 8 p = ''/locked/'' then Inl PermissionError
                           else Inr (p = ''/tmp'')),
     chdir_to = (\<lambda>d p. Inr p),
     popen_error = (\<lambda>argv. None),
     child_output = (\<lambda>argv. ([], []))\<rparr>"

definition example_world :: world where
  "example_world = \<lparr>w_cwd = ''/'', w_stdout = [], w_stderr = [], w_files = [], w_spawned = []\<rparr>"

text \<open>
  A file system in which \<^verbatim>\<open>/bin\<close> holds the executable \<^verbatim>\<open>ls\<close>, \<^verbatim>\<open>/secret\<close> may not be
  listed, \<^verbatim>\<open>/locked\<close> may be listed but not searched, so that the test of its entry
  \<^verbatim>\<open>tool\<close> raises, and no other directory exists.
\<close>

definition example_iterdir :: "string \<Rightarrow> os_error + dir_entry list" where
  "example_iterdir d =
     (if d = ''/bin''
        then Inr [\<lparr>e_name = ''ls'', e_path = ''/bin/ls'', e_is_file = Inr True, e_x_ok = True\<rparr>]
      else if d = ''/secret'' then Inl PermissionError
      else if d = ''/locked''
        then Inr [\<lparr>e_name = ''tool'', e_path = ''/locked/tool'',
                   e_is_file = Inl PermissionError, e_x_ok = False\<rparr>]
      else Inl FileNotFoundError)"

section \<open>Properties\<close>

subsection \<open>Auxiliary facts\<close>

lemma locals0_sel [simp]:
  "l_cmds (locals0 c) = c" "l_out (locals0 c) = SysStdout" "l_err (locals0 c) = SysStderr"
  "l_close_out (locals0 c) = False" "l_close_err (locals0 c) = False"
  by (simp_all add: locals0_def)

lemma and_then_Some [simp]: "and_then (Some e, fr, w) f = (Some e, fr, w)"
  by (simp add: and_then_def)

lemma and_then_pass [simp]: "and_then (None, fr, w) f = f fr w"
  by (simp add: and_then_def)

lemma and_then_assoc:
  "and_then (and_then r f) g = and_then r (\<lambda>fr w. and_then (f fr w) g)"
  by (cases r) (auto simp: and_then_def split: option.splits)

lemma and_then_unit: "and_then r (\<lambda>fr w. (None, fr, w)) = r"
  by (cases r) (auto simp: and_then_def split: option.splits)

lemma run_steps_fun:
  "run_steps env [] = (\<lambda>fr w. (None, fr, w))"
  "run_steps env (s # ss) = (\<lambda>fr w. and_then (step_fn env s fr w) (run_steps env ss))"
  by (simp_all add: fun_eq_iff)

lemma redirections_run_steps: "redirections env fr w = run_steps env the_steps fr w"
proof -
  have "redirect_stdout_w env = step_fn env (''>'', ''1>'', False, ModeW)"
    "redirect_stderr_w env = step_fn env (''2>'', ''2>'', True, ModeW)"
    "redirect_stdout_a env = step_fn env (''>>'', ''1>>'', False, ModeA)"
    "redirect_stderr_a env = step_fn env (''2>>'', ''2>>'', True, ModeA)"
    by (auto simp: fun_eq_iff redirect_stdout_w_def redirect_stderr_w_def
        redirect_stdout_a_def redirect_stderr_a_def)
  then show ?thesis
    by (simp add: redirections_def the_steps_def and_then_assoc and_then_unit run_steps_fun
        del: step_fn.simps)
qed

text \<open>What every outcome of the extraction keeps, when each \<open>redirect\<close> keeps it.\<close>

lemma run_steps_preserves:
  assumes keep: "\<And>op to_err mode fr w x fr' w'.
      P fr w \<Longrightarrow> redirect env op to_err mode fr w = (x, fr', w') \<Longrightarrow> P fr' w'"
  shows "P fr w \<Longrightarrow> run_steps env ss fr w = (x, fr', w') \<Longrightarrow> P fr' w'"
proof (induction ss arbitrary: fr w)
  case Nil
  then show ?case by simp
next
  case (Cons s ss)
  obtain a b to_err mode where s: "s = (a, b, to_err, mode)" by (cases s)
  obtain y fr1 w1 where st: "step_fn env s fr w = (y, fr1, w1)" by (cases "step_fn env s fr w")
  have p1: "P fr1 w1"
    using st Cons.prems(1) keep unfolding s
    by (auto split: if_splits)
  show ?case
  proof (cases y)
    case None
    with Cons.prems(2) st have "run_steps env ss fr1 w1 = (x, fr', w')" by simp
    with p1 show ?thesis by (rule Cons.IH)
  next
    case (Some e)
    with Cons.prems(2) st have "fr' = fr1" "w' = w1" by simp_all
    with p1 show ?thesis by simp
  qed
qed

lemma redirections_preserves:
  assumes "\<And>op to_err mode fr w x fr' w'.
      P fr w \<Longrightarrow> redirect env op to_err mode fr w = (x, fr', w') \<Longrightarrow> P fr' w'"
    and "P fr w" and "redirections env fr w = (x, fr', w')"
  shows "P fr' w'"
  using run_steps_preserves [of P env fr w the_steps x fr' w'] assms
  by (simp add: redirections_run_steps)

lemma py_replace_char:
  "py_replace [x] new s = concat (map (\<lambda>c. if c = x then new else [c]) s)"
  by (induction s) simp_all

subsection \<open>Unbalanced quoting (C1)\<close>

text \<open>
  The lexer raises whenever the line leaves a quote open. The proof follows the lexer
  through its states: in each of them the rest of the line still leaves a quote open.
\<close>

lemma emit_error: "tok \<noteq> [] \<or> quoted \<Longrightarrow> emit quoted tok (Inl e) = Inl e"
  by (auto simp: emit_def)

lemma leaves_open_plain:
  "st \<notin> set quotes \<Longrightarrow> st \<notin> set escape \<Longrightarrow> leaves_open st es cs = (open_quote None cs \<noteq> None)"
  by (simp add: leaves_open_def quote_of_def)

lemma leaves_open_quote:
  "st \<in> set quotes \<Longrightarrow> leaves_open st es cs = (open_quote (Some st) cs \<noteq> None)"
  by (auto simp: leaves_open_def quote_of_def quotes_def escape_def)

lemma read_tokens_leaves_open:
  "leaves_open st es cs \<Longrightarrow> es \<notin> set escape \<Longrightarrow> read_tokens st es quoted tok cs = Inl ValueError"
proof (induction cs arbitrary: st es quoted tok)
  case Nil
  then show ?case
    by (auto simp: leaves_open_def quote_of_def quotes_def escape_def split: if_splits)
next
  case (Cons c cs)
  have a_ok: "CHR ''a'' \<notin> set escape" "CHR '' '' \<notin> set escape"
    "CHR ''a'' \<notin> set quotes" "CHR '' '' \<notin> set quotes"
    by (simp_all add: escape_def quotes_def)
  consider (esc) "st \<in> set escape" | (quo) "st \<in> set quotes" "st \<notin> set escape"
    | (plain) "st \<notin> set quotes" "st \<notin> set escape"
    by blast
  then show ?case
  proof cases
    case esc
    then have st: "st \<noteq> CHR '' ''" "st \<notin> set quotes"
      by (auto simp: escape_def quotes_def)
    from Cons.prems esc have "leaves_open es es cs"
      by (simp add: leaves_open_def)
    then have "read_tokens es es quoted tok' cs = Inl ValueError" for tok'
      using Cons.prems(2) by (rule Cons.IH)
    then show ?thesis using esc st by simp
  next
    case quo
    then have st: "st \<noteq> CHR '' ''" by (auto simp: quotes_def)
    from Cons.prems quo have o: "open_quote (Some st) (c # cs) \<noteq> None"
      by (simp add: leaves_open_quote)
    show ?thesis
    proof (cases "c = st")
      case True
      with o have "leaves_open (CHR ''a'') es cs"
        by (simp add: leaves_open_plain a_ok)
      then have "read_tokens (CHR ''a'') es True tok cs = Inl ValueError"
        using Cons.prems(2) by (rule Cons.IH)
      then show ?thesis using quo st True by simp
    next
      case False
      show ?thesis
      proof (cases "c \<in> set escape \<and> st \<in> set escapedquotes")
        case True
        then have c: "c = CHR 0x5C" "st = CHR 0x22"
          by (simp_all add: escape_def escapedquotes_def)
        with o False have "leaves_open c st cs"
          by (auto simp: leaves_open_def quote_of_def quotes_def escape_def split: list.splits)
        moreover have "st \<notin> set escape" by fact
        ultimately have "read_tokens c st True tok cs = Inl ValueError"
          by (rule Cons.IH)
        then show ?thesis using quo st False True by simp
      next
        case F2: False
        then have "\<not> (c = CHR 0x5C \<and> st = CHR 0x22)"
          by (simp add: escape_def escapedquotes_def)
        with o False have "leaves_open st es cs"
          using quo by (auto simp: leaves_open_quote)
        then have "read_tokens st es True (tok @ [c]) cs = Inl ValueError"
          using Cons.prems(2) by (rule Cons.IH)
        then show ?thesis using quo st False F2 by auto
      qed
    qed
  next
    case plain
    from Cons.prems plain have o: "open_quote None (c # cs) \<noteq> None"
      by (simp add: leaves_open_plain)
    have sp: "leaves_open (CHR '' '') e' cs = (open_quote None cs \<noteq> None)" for e'
      by (simp add: leaves_open_plain a_ok)
    have wd: "leaves_open (CHR ''a'') e' cs = (open_quote None cs \<noteq> None)" for e'
      by (simp add: leaves_open_plain a_ok)
    have pl: "leaves_open st e' cs = (open_quote None cs \<noteq> None)" for e'
      by (simp add: leaves_open_plain plain)
    show ?thesis
    proof (cases "c \<in> set escape")
      case True
      then have c: "c = CHR 0x5C" by (simp add: escape_def)
      have cw: "c \<notin> set whitespace" "c \<notin> set quotes"
        by (simp_all add: c whitespace_def quotes_def)
      from o c have "leaves_open c (CHR ''a'') cs"
        by (auto simp: leaves_open_def quote_of_def quotes_def escape_def split: list.splits)
      then have "read_tokens c (CHR ''a'') quoted tok cs = Inl ValueError"
        using a_ok(1) by (rule Cons.IH)
      then show ?thesis using plain True cw by simp
    next
      case ne: False
      show ?thesis
      proof (cases "c \<in> set quotes")
        case True
        then have cw: "c \<notin> set whitespace"
          by (auto simp: whitespace_def quotes_def)
        from o True ne have "leaves_open c es cs"
          by (auto simp: leaves_open_quote quotes_def escape_def)
        then have "read_tokens c es quoted tok cs = Inl ValueError"
          using Cons.prems(2) by (rule Cons.IH)
        then show ?thesis using plain True ne cw by simp
      next
        case nq: False
        from o ne nq have o': "open_quote None cs \<noteq> None"
          by (simp add: quotes_def escape_def)
        have ih: "e' \<notin> set escape \<Longrightarrow> s' \<notin> set quotes \<Longrightarrow> s' \<notin> set escape
            \<Longrightarrow> read_tokens s' e' q' t' cs = Inl ValueError" for s' e' q' t'
          using o' by (intro Cons.IH) (simp_all add: leaves_open_plain)
        show ?thesis
          using plain ne nq a_ok Cons.prems(2)
          by (simp add: ih emit_error)
      qed
    qed
  qed
qed

lemma unterminated_quote_ValueError:
  "unterminated_quote line \<Longrightarrow> shlex_split line = Inl ValueError"
  unfolding shlex_split_def unterminated_quote_def
  by (rule read_tokens_leaves_open)
    (simp_all add: leaves_open_def quote_of_def quotes_def escape_def)

text \<open>
  Claim C1, as the code has it: for every line with an unterminated single or double
  quote, \<^verbatim>\<open>shlex.split\<close> raises ValueError; nothing catches it, so the turn of the loop ends
  with that error before anything is opened or dispatched, and \<^verbatim>\<open>main\<close> ends with it:
  only the prompt has been written, and the lines after it are not read.
\<close>

theorem C1_unterminated_quote_ends_main:
  assumes "unterminated_quote line"
  shows "shlex_split line = Inl ValueError
    \<and> loop_body env line w = (Some ValueError, w)
    \<and> main env (line # rest) w = (ValueError, write_stream SysStdout ''$ '' w)"
  using unterminated_quote_ValueError [OF assms] by (simp add: loop_body_def)

text \<open>The theorem at the line \<^verbatim>\<open>echo "abc\<close>, with one more line waiting.\<close>

theorem C1_unterminated_quote_ends_main_witness:
  "unterminated_quote (''echo '' @ [CHR 0x22] @ ''abc'')
   \<and> shlex_split (''echo '' @ [CHR 0x22] @ ''abc'') = Inl ValueError
   \<and> main example_env [''echo '' @ [CHR 0x22] @ ''abc'', ''echo next''] example_world
       = (ValueError, example_world\<lparr>w_stdout := ''$ ''\<rparr>)"
proof -
  have u: "unterminated_quote (''echo '' @ [CHR 0x22] @ ''abc'')"
    by (simp add: unterminated_quote_def)
  show ?thesis
    using u C1_unterminated_quote_ends_main [OF u, of example_env example_world "[''echo next'']"]
    by (simp add: example_world_def)
qed

text \<open>
  The claim as written fails for the line \<^verbatim>\<open>echo "abc\<close>: the loop does not go on to the
  next prompt. \<^verbatim>\<open>main\<close> ends with ValueError after one prompt; the line \<^verbatim>\<open>echo next\<close> that
  follows is never handled.
\<close>

theorem C1_counterexample:
  "fst (main example_env [''echo '' @ [CHR 0x22] @ ''abc'', ''echo next''] example_world)
     = ValueError
   \<and> w_stdout (snd (main example_env [''echo '' @ [CHR 0x22] @ ''abc'', ''echo next'']
        example_world)) = ''$ ''"
  by code_simp

subsection \<open>Unknown commands (C5)\<close>

text \<open>
  Claim C5, as the code has it: when the tokens given to \<^verbatim>\<open>handle_all\<close> match none of the
  builtin forms and the first token, if there is one, is not in \<^verbatim>\<open>PROGRAMS_IN_PATH\<close>, the
  shell writes the tokens joined by single blanks, then \<^verbatim>\<open>: command not found\<close> and a
  newline, to the stream \<open>out\<close> it was given, and does nothing else: the world differs
  from the one before by this text alone.
\<close>

theorem C5_command_not_found:
  assumes "\<not> builtin_form cmds"
    and "cmds \<noteq> [] \<longrightarrow> PROGRAMS_IN_PATH env (hd cmds) = None"
  shows "handle_all env cmds out err w
     = (None, write_stream out (join_space cmds @ '': command not found'' @ newline) w)"
  using assms
  by (cases cmds) (auto simp: handle_all_def builtin_form_def command_not_found_def)

text \<open>The theorem at the tokens \<^verbatim>\<open>nonexistentcmd arg1\<close>, with the standard output as \<open>out\<close>.\<close>

theorem C5_command_not_found_witness:
  "\<not> builtin_form [''nonexistentcmd'', ''arg1'']
   \<and> PROGRAMS_IN_PATH example_env ''nonexistentcmd'' = None
   \<and> handle_all example_env [''nonexistentcmd'', ''arg1''] SysStdout SysStderr example_world
     = (None, example_world\<lparr>w_stdout := ''nonexistentcmd arg1: command not found'' @ newline\<rparr>)"
  using C5_command_not_found [of "[''nonexistentcmd'', ''arg1'']" example_env
      SysStdout SysStderr example_world]
  by (simp add: builtin_form_def example_env_def example_world_def)

text \<open>
  The claim as written fails for the line \<^verbatim>\<open>foo  bar > f\<close> (two blanks after \<^verbatim>\<open>foo\<close>):
  the standard output receives the two prompts only, and the text, which is not the
  original line, goes to the file \<^verbatim>\<open>f\<close>.
\<close>

theorem C5_counterexample:
  "fst (main example_env [''foo  bar > f''] example_world) = EOFError
   \<and> w_stdout (snd (main example_env [''foo  bar > f''] example_world)) = ''$ $ ''
   \<and> map f_path (w_files (snd (main example_env [''foo  bar > f''] example_world))) = [''f'']
   \<and> map f_written (w_files (snd (main example_env [''foo  bar > f''] example_world)))
       = [''foo bar: command not found'' @ newline]"
  by code_simp

subsection \<open>The empty line (C7)\<close>

text \<open>
  Claim C7, as the code has it: a line that tokenizes to the empty sequence reaches the last
  case of the \<^verbatim>\<open>match\<close>, so the shell writes \<^verbatim>\<open>: command not found\<close> and a newline to the
  standard output, raises nothing, and goes on with the next prompt.
\<close>

theorem C7_empty_line_prints_not_found:
  assumes "shlex_split line = Inr []"
  shows "loop_body env line w
      = (None, write_stream SysStdout ('': command not found'' @ newline) w)
    \<and> main env (line # rest) w
      = main env rest (write_stream SysStdout (''$ : command not found'' @ newline) w)"
proof -
  have r: "redirections env (locals0 []) w' = (None, locals0 [], w')" for w'
    by (simp add: redirections_def and_then_def redirect_stdout_w_def
        redirect_stderr_w_def redirect_stdout_a_def redirect_stderr_a_def)
  have t: "try_body env (locals0 []) w'
      = (None, locals0 [], write_stream SysStdout ('': command not found'' @ newline) w')" for w'
    by (simp add: try_body_def r and_then_def handle_all_def command_not_found_def)
  have b: "loop_body env line w'
      = (None, write_stream SysStdout ('': command not found'' @ newline) w')" for w'
    using assms by (simp add: loop_body_def t finally_close_def)
  show ?thesis by (simp add: b)
qed

theorem C7_empty_line_prints_not_found_witness:
  "shlex_split [] = Inr []
   \<and> main example_env [[]] example_world
     = (EOFError, example_world\<lparr>w_stdout := ''$ : command not found'' @ newline @ ''$ ''\<rparr>)"
  using C7_empty_line_prints_not_found [of "[]" example_env example_world "[]"]
  by (simp add: shlex_split_def emit_def example_world_def)

text \<open>The claim as written fails for the empty line: the shell does produce output.\<close>

theorem C7_counterexample:
  "w_stdout (snd (main example_env [[]] example_world))
     = ''$ : command not found'' @ newline @ ''$ ''"
  by code_simp

subsection \<open>\<^verbatim>\<open>cd\<close> to a path that does not exist (C6)\<close>




subsection \<open>The substitution of \<^verbatim>\<open>~\<close> in \<^verbatim>\<open>cd\<close> (C9)\<close>

text \<open>
  Claim C9, as the code has it: for an argument that begins with \<^verbatim>\<open>~\<close>, every \<^verbatim>\<open>~\<close> in it
  is replaced by the home directory, which is the value of \<^verbatim>\<open>HOME\<close> when that is set and
  not empty, and \<^verbatim>\<open>/root\<close> when \<^verbatim>\<open>HOME\<close> is unset or empty; an argument that does not
  begin with \<^verbatim>\<open>~\<close> is left as it is. The existence check is made on the result: when it
  answers that the path does not exist the working directory stays, when it answers that
  the path exists the shell changes to it, and when it raises, \<^verbatim>\<open>cd\<close> raises that error.
\<close>

theorem C9_tilde_substitution:
  "(startswith arg ''~'' \<longrightarrow>
      cd_path env arg = concat (map (\<lambda>c. if c = CHR ''~'' then home_dir env else [c]) arg))
   \<and> (\<not> startswith arg ''~'' \<longrightarrow> cd_path env arg = arg)
   \<and> (env_HOME env = None \<or> env_HOME env = Some [] \<longrightarrow> home_dir env = ''/root'')
   \<and> (\<forall>h. env_HOME env = Some h \<and> h \<noteq> [] \<longrightarrow> home_dir env = h)
   \<and> (path_exists env (w_cwd w) (cd_path env arg) = Inr False \<longrightarrow>
        w_cwd (snd (cd env arg out err w)) = w_cwd w)
   \<and> (path_exists env (w_cwd w) (cd_path env arg) = Inr True \<longrightarrow>
        cd env arg out err w =
          (case chdir_to env (w_cwd w) (cd_path env arg) of
             Inl e \<Rightarrow> (Some (OSError e), w)
           | Inr d \<Rightarrow> (None, w\<lparr>w_cwd := d\<rparr>)))
   \<and> (\<forall>e. path_exists env (w_cwd w) (cd_path env arg) = Inl e \<longrightarrow>
        cd env arg out err w = (Some (OSError e), w))"
proof -
  have subst: "startswith arg ''~'' \<longrightarrow>
      cd_path env arg = concat (map (\<lambda>c. if c = CHR ''~'' then home_dir env else [c]) arg)"
    by (simp add: cd_path_def py_replace_char)
  have keep: "\<not> startswith arg ''~'' \<longrightarrow> cd_path env arg = arg"
    by (simp add: cd_path_def)
  have fallback: "env_HOME env = None \<or> env_HOME env = Some [] \<longrightarrow> home_dir env = ''/root''"
    by (auto simp: home_dir_def)
  have home: "\<forall>h. env_HOME env = Some h \<and> h \<noteq> [] \<longrightarrow> home_dir env = h"
    by (simp add: home_dir_def)
  have missing: "path_exists env (w_cwd w) (cd_path env arg) = Inr False \<longrightarrow>
      w_cwd (snd (cd env arg out err w)) = w_cwd w"
    by (cases out) (simp_all add: cd_def)
  have present: "path_exists env (w_cwd w) (cd_path env arg) = Inr True \<longrightarrow>
      cd env arg out err w =
        (case chdir_to env (w_cwd w) (cd_path env arg) of
           Inl e \<Rightarrow> (Some (OSError e), w)
         | Inr d \<Rightarrow> (None, w\<lparr>w_cwd := d\<rparr>))"
    by (simp add: cd_def)
  have raises: "\<forall>e. path_exists env (w_cwd w) (cd_path env arg) = Inl e \<longrightarrow>
      cd env arg out err w = (Some (OSError e), w)"
    by (simp add: cd_def)
  from subst keep fallback home missing present raises show ?thesis by blast
qed

text \<open>
  The theorem at three inputs: \<^verbatim>\<open>~/a~b\<close> with \<^verbatim>\<open>HOME=/home/u\<close>, a path that does not
  exist; \<^verbatim>\<open>/tmp\<close>, which exists, with \<^verbatim>\<open>HOME\<close> unset; and \<^verbatim>\<open>/locked/x\<close>, for which the
  existence check raises.
\<close>

theorem C9_tilde_substitution_witness:
  "startswith ''~/a~b'' ''~''
   \<and> env_HOME example_env = Some ''/home/u''
   \<and> cd_path example_env ''~/a~b'' = ''/home/u/a/home/ub''
   \<and> path_exists example_env (w_cwd example_world) (cd_path example_env ''~/a~b'') = Inr False
   \<and> w_cwd (snd (cd example_env ''~/a~b'' SysStdout SysStderr example_world)) = ''/''
   \<and> \<not> startswith ''/tmp'' ''~''
   \<and> env_HOME (example_env\<lparr>env_HOME := None\<rparr>) = None
   \<and> home_dir (example_env\<lparr>env_HOME := None\<rparr>) = ''/root''
   \<and> cd_path (example_env\<lparr>env_HOME := None\<rparr>) ''/tmp'' = ''/tmp''
   \<and> path_exists (example_env\<lparr>env_HOME := None\<rparr>) (w_cwd example_world)
        (cd_path (example_env\<lparr>env_HOME := None\<rparr>) ''/tmp'') = Inr True
   \<and> cd (example_env\<lparr>env_HOME := None\<rparr>) ''/tmp'' SysStdout SysStderr example_world
       = (None, example_world\<lparr>w_cwd := ''/tmp''\<rparr>)
   \<and> path_exists example_env (w_cwd example_world) (cd_path example_env ''/locked/x'')
       = Inl PermissionError
   \<and> cd example_env ''/locked/x'' SysStdout SysStderr example_world
       = (Some (OSError PermissionError), example_world)"
proof -
  have a: "startswith ''~/a~b'' ''~''" by (simp add: startswith_def)
  have b: "env_HOME example_env = Some ''/home/u''" by (simp add: example_env_def)
  have c: "\<not> startswith ''/tmp'' ''~''" "\<not> startswith ''/locked/x'' ''~''"
    by (simp_all add: startswith_def)
  have d: "env_HOME (example_env\<lparr>env_HOME := None\<rparr>) = None" by simp
  have e: "path_exists (example_env\<lparr>env_HOME := None\<rparr>) d p
      = (if take 8 p = ''/locked/'' then Inl PermissionError else Inr (p = ''/tmp''))" for d p
    by (simp add: example_env_def)
  have e': "path_exists example_env d p
      = (if take 8 p = ''/locked/'' then Inl PermissionError else Inr (p = ''/tmp''))" for d p
    by (simp add: example_env_def)
  have f: "chdir_to (example_env\<lparr>env_HOME := None\<rparr>) d p = Inr p" for d p
    by (simp add: example_env_def)
  have f': "chdir_to example_env d p = Inr p" for d p
    by (simp add: example_env_def)
  have g: "w_cwd example_world = ''/''" by (simp add: example_world_def)
  show ?thesis
    using C9_tilde_substitution [of "''~/a~b''" example_env example_world SysStdout SysStderr]
      C9_tilde_substitution [of "''/tmp''" "example_env\<lparr>env_HOME := None\<rparr>" example_world
        SysStdout SysStderr]
      C9_tilde_substitution [of "''/locked/x''" example_env example_world SysStdout SysStderr]
    by (simp add: a b c d e e' f f' g)
qed

text \<open>
  The claim as written fails when \<^verbatim>\<open>HOME\<close> is set to the empty string: \<^verbatim>\<open>~\<close> becomes
  \<^verbatim>\<open>/root\<close>, not the value of \<^verbatim>\<open>HOME\<close>.
\<close>

theorem C9_counterexample:
  "env_HOME (example_env\<lparr>env_HOME := Some []\<rparr>) = Some []
   \<and> cd_path (example_env\<lparr>env_HOME := Some []\<rparr>) ''~/x'' = ''/root/x''"
  by code_simp

subsection \<open>Directories of the search path (C8)\<close>

lemma scan_dirs_skips_missing:
  "scan_dirs iterdir dirs programs
     = scan_dirs iterdir (filter (\<lambda>d. iterdir d \<noteq> Inl FileNotFoundError) dirs) programs"
  by (induction dirs arbitrary: programs)
    (auto split: sum.splits os_error.splits prod.splits option.splits)

lemma add_entries_no_error:
  "\<forall>en \<in> set entries. \<exists>b. e_is_file en = Inr b \<Longrightarrow> fst (add_entries entries programs) = None"
  by (induction entries arbitrary: programs) auto

lemma scan_dirs_no_error:
  "\<forall>d \<in> set dirs. iterdir d = Inl FileNotFoundError
      \<or> (\<exists>es. iterdir d = Inr es \<and> (\<forall>en \<in> set es. \<exists>b. e_is_file en = Inr b))
    \<Longrightarrow> fst (scan_dirs iterdir dirs programs) = None"
proof (induction dirs arbitrary: programs)
  case Nil
  then show ?case by simp
next
  case (Cons d dirs)
  from Cons.prems have rest: "\<forall>d \<in> set dirs. iterdir d = Inl FileNotFoundError
      \<or> (\<exists>es. iterdir d = Inr es \<and> (\<forall>en \<in> set es. \<exists>b. e_is_file en = Inr b))"
    by simp
  from Cons.prems consider "iterdir d = Inl FileNotFoundError"
    | es where "iterdir d = Inr es" "\<forall>en \<in> set es. \<exists>b. e_is_file en = Inr b"
    by auto
  then show ?case
  proof cases
    case 1
    with Cons.IH [OF rest] show ?thesis by simp
  next
    case 2
    from add_entries_no_error [OF 2(2), of programs]
    obtain programs' where "add_entries es programs = (None, programs')"
      by (cases "add_entries es programs") auto
    with 2(1) Cons.IH [OF rest] show ?thesis by simp
  qed
qed

text \<open>
  Claim C8, as far as the code carries it: the directories of the search path are taken in
  the order listed, and one that does not exist is skipped silently. The index is the one
  the other directories alone give, and when every directory either does not exist or
  can be listed with no entry whose test \<^verbatim>\<open>is_file()\<close> raises, no error is raised.
\<close>

theorem C8_missing_directory_skipped:
  "parse_programs_in_path iterdir path programs
     = scan_dirs iterdir
         (filter (\<lambda>d. iterdir d \<noteq> Inl FileNotFoundError) (split_on pathsep path)) programs
   \<and> ((\<forall>d \<in> set (split_on pathsep path).
          iterdir d = Inl FileNotFoundError
          \<or> (\<exists>es. iterdir d = Inr es \<and> (\<forall>en \<in> set es. \<exists>b. e_is_file en = Inr b)))
        \<longrightarrow> fst (parse_programs_in_path iterdir path programs) = None)"
  unfolding parse_programs_in_path_def
  using scan_dirs_skips_missing [of iterdir "split_on pathsep path" programs]
    scan_dirs_no_error [of "split_on pathsep path" iterdir programs]
  by blast

text \<open>The theorem at the search path \<^verbatim>\<open>/missing:/bin\<close>.\<close>

theorem C8_missing_directory_skipped_witness:
  "split_on pathsep ''/missing:/bin'' = [''/missing'', ''/bin'']
   \<and> example_iterdir ''/missing'' = Inl FileNotFoundError
   \<and> example_iterdir ''/bin''
       = Inr [\<lparr>e_name = ''ls'', e_path = ''/bin/ls'', e_is_file = Inr True, e_x_ok = True\<rparr>]
   \<and> fst (parse_programs_in_path example_iterdir ''/missing:/bin'' Map.empty) = None
   \<and> parse_programs_in_path example_iterdir ''/missing:/bin'' Map.empty
       = scan_dirs example_iterdir [''/bin''] Map.empty"
  using C8_missing_directory_skipped [of example_iterdir "''/missing:/bin''" Map.empty]
  by (simp add: pathsep_def example_iterdir_def)

text \<open>
  The claim as written fails for a directory that may not be listed: with the search path
  \<^verbatim>\<open>/secret:/bin\<close> the function raises PermissionError and \<^verbatim>\<open>ls\<close> is not indexed, while
  with \<^verbatim>\<open>/missing:/bin\<close> it raises nothing and indexes \<^verbatim>\<open>ls\<close>. It raises as well for a
  directory that can be listed but not searched: with \<^verbatim>\<open>/bin:/locked\<close> the test of the
  entry \<^verbatim>\<open>tool\<close> raises PermissionError, after \<^verbatim>\<open>ls\<close> was indexed.
\<close>

theorem C8_counterexample:
  "fst (parse_programs_in_path example_iterdir ''/secret:/bin'' Map.empty)
     = Some (OSError PermissionError)
   \<and> snd (parse_programs_in_path example_iterdir ''/secret:/bin'' Map.empty) ''ls'' = None
   \<and> fst (parse_programs_in_path example_iterdir ''/missing:/bin'' Map.empty) = None
   \<and> snd (parse_programs_in_path example_iterdir ''/missing:/bin'' Map.empty) ''ls''
       = Some ''/bin/ls''
   \<and> fst (parse_programs_in_path example_iterdir ''/bin:/locked'' Map.empty)
     = Some (OSError PermissionError)
   \<and> snd (parse_programs_in_path example_iterdir ''/bin:/locked'' Map.empty) ''ls''
       = Some ''/bin/ls''"
  by code_simp

subsection \<open>Streams and the working directory\<close>

lemma io_unchanged_refl [simp]: "io_unchanged w w"
  by (simp add: io_unchanged_def)

lemma io_unchanged_trans: "io_unchanged w w1 \<Longrightarrow> io_unchanged w1 w2 \<Longrightarrow> io_unchanged w w2"
  by (simp add: io_unchanged_def)

lemma io_unchanged_py_close: "io_unchanged w (py_close s w)"
  by (cases s) (simp_all add: io_unchanged_def)

lemma io_unchanged_drop_reference: "io_unchanged w (drop_reference s w)"
  by (cases s) (simp_all add: drop_reference_def io_unchanged_def)

lemma io_unchanged_finally_close: "io_unchanged w (finally_close fr w)"
  unfolding finally_close_def Let_def
  using io_unchanged_py_close io_unchanged_trans by (auto simp: io_unchanged_def)

lemma io_unchanged_redirect:
  assumes "io_unchanged w0 w" and "redirect env op to_err mode fr w = (x, fr', w')"
  shows "io_unchanged w0 w'"
proof -
  have "io_unchanged w w'"
    using assms(2) io_unchanged_drop_reference
    by (auto simp: redirect_def py_open_def io_unchanged_def drop_reference_def
        split: option.splits if_splits stream.splits)
  with assms(1) show ?thesis by (rule io_unchanged_trans)
qed

lemma io_unchanged_redirections:
  assumes "redirections env fr w = (x, fr', w')"
  shows "io_unchanged w w'"
proof (rule redirections_preserves [where P = "\<lambda>_ v. io_unchanged w v", OF _ _ assms])
  show "io_unchanged w w" by simp
qed (rule io_unchanged_redirect)

subsection \<open>The file objects of one turn of the loop\<close>

lemma files_inv_start: "files_inv (w_files w) (locals0 cmds) w"
  by (simp add: files_inv_def own_stream_def)

lemma files_inv_redirect:
  assumes inv: "files_inv old fr w" and r: "redirect env op to_err mode fr w = (x, fr', w')"
  shows "files_inv old fr' w'"
proof (cases x)
  case (Some e)
  with r have "fr' = fr" "w' = w"
    by (auto simp: redirect_def py_open_def split: option.splits if_splits)
  with inv show ?thesis by simp
next
  case None
  let ?n = "length old" and ?m = "length (w_files w)"
  from r None obtain i where i: "list_index (l_cmds fr) op = Some i"
    and len: "\<not> length (l_cmds fr) \<le> i + 1"
    and ok: "open_error env (l_cmds fr ! (i + 1)) mode = None"
    by (auto simp: redirect_def py_open_def split: option.splits if_splits)
  let ?f = "\<lparr>f_path = l_cmds fr ! (i + 1), f_mode = mode, f_closed = False, f_written = []\<rparr>"
  let ?w1 = "w\<lparr>w_files := w_files w @ [?f]\<rparr>"
  let ?old = "if to_err then l_err fr else l_out fr"
  from r None i len ok have w': "w' = drop_reference ?old ?w1"
    and out': "l_out fr' = (if to_err then l_out fr else FileObj ?m)"
    and err': "l_err fr' = (if to_err then FileObj ?m else l_err fr)"
    and co': "l_close_out fr' = (if to_err then l_close_out fr else True)"
    and ce': "l_close_err fr' = (if to_err then True else l_close_err fr)"
    by (auto simp: redirect_def py_open_def)
  from inv have n: "?n \<le> ?m" and pre: "take ?n (w_files w) = old"
    and so: "own_stream ?n ?m (l_out fr) (l_close_out fr)"
    and se: "own_stream ?n ?m (l_err fr) (l_close_err fr)"
    and named: "\<And>k. ?n \<le> k \<Longrightarrow> k < ?m \<Longrightarrow> \<not> f_closed (w_files w ! k)
        \<Longrightarrow> l_out fr = FileObj k \<or> l_err fr = FileObj k"
    by (auto simp: files_inv_def)
  have so_old: "own_stream ?n ?m ?old (if to_err then l_close_err fr else l_close_out fr)"
    using so se by simp
  have lw': "length (w_files w') = Suc ?m"
    by (cases ?old) (simp_all add: w' drop_reference_def)
  have pre': "take ?n (w_files w') = old"
  proof (cases ?old)
    case (FileObj h)
    with so_old have "?n \<le> h" by (auto simp: own_stream_def split: if_splits)
    with FileObj pre n show ?thesis
      by (simp add: w' drop_reference_def take_update_cancel)
  qed (use pre n in \<open>simp_all add: w' drop_reference_def\<close>)
  have nth': "w_files w' ! k =
      (if ?old = FileObj k \<and> k < Suc ?m then ((w_files w @ [?f]) ! k)\<lparr>f_closed := True\<rparr>
       else (w_files w @ [?f]) ! k)" if "k < Suc ?m" for k
    using that by (cases ?old) (auto simp: w' drop_reference_def nth_list_update)
  have old_lt: "?old = FileObj h \<Longrightarrow> h < ?m" for h
    using so_old by (auto simp: own_stream_def split: if_splits)
  have so': "own_stream ?n (Suc ?m) (l_out fr') (l_close_out fr')"
    using so n by (auto simp: out' co' own_stream_def split: stream.splits)
  have se': "own_stream ?n (Suc ?m) (l_err fr') (l_close_err fr')"
    using se n by (auto simp: err' ce' own_stream_def split: stream.splits)
  have named': "l_out fr' = FileObj k \<or> l_err fr' = FileObj k"
    if k: "?n \<le> k" "k < Suc ?m" "\<not> f_closed (w_files w' ! k)" for k
  proof (cases "k = ?m")
    case True
    then show ?thesis by (simp add: out' err')
  next
    case False
    with k have km: "k < ?m" by simp
    from k(2,3) nth' [OF k(2)] have notold: "?old \<noteq> FileObj k"
      by (auto split: if_splits)
    with k(3) nth' [OF k(2)] km have "\<not> f_closed (w_files w ! k)"
      by (simp add: nth_append)
    from named [OF k(1) km this] notold show ?thesis
      by (auto simp: out' err' split: if_splits)
  qed
  show ?thesis
    unfolding files_inv_def using n lw' pre' so' se' named' by auto
qed

lemma files_inv_redirections:
  assumes "files_inv old fr w" and "redirections env fr w = (x, fr', w')"
  shows "files_inv old fr' w'"
  by (rule redirections_preserves [where P = "files_inv old", OF _ assms])
    (rule files_inv_redirect)

lemma only_written_refl [simp]: "only_written out err w w"
  by (simp add: only_written_def)

lemma only_written_trans:
  "only_written out err w w1 \<Longrightarrow> only_written out err w1 w2 \<Longrightarrow> only_written out err w w2"
  by (auto simp: only_written_def)

lemma nth_update_cases:
  "k < length xs \<Longrightarrow> xs[h := v] ! k = (if h = k then v else xs ! k)"
  by (cases "h = k") simp_all

lemma only_written_write:
  "s = out \<or> s = err \<Longrightarrow> only_written out err w (write_stream s t w)"
  by (cases s) (auto simp: only_written_def nth_update_cases)

lemma only_written_cwd: "only_written out err w (w\<lparr>w_cwd := d\<rparr>)"
  by (simp add: only_written_def)

lemma only_written_spawned: "only_written out err w (w\<lparr>w_spawned := p\<rparr>)"
  by (simp add: only_written_def)

lemma only_written_type_command:
  "type_command env c out err w = (x, w') \<Longrightarrow> only_written out err w w'"
  by (auto simp: type_command_def only_written_write split: if_splits option.splits)

lemma only_written_cd: "cd env p out err w = (x, w') \<Longrightarrow> only_written out err w w'"
  by (auto simp: cd_def Let_def only_written_write only_written_cwd
      split: if_splits sum.splits)

lemma only_written_run_program:
  assumes "run_program env argv out err w = (x, w')"
  shows "only_written out err w w'"
proof (cases "popen_error env argv")
  case None
  let ?w1 = "w\<lparr>w_spawned := w_spawned w @ [(argv, out, err)]\<rparr>"
  let ?w2 = "write_stream out (fst (child_output env argv)) ?w1"
  from assms None have "w' = write_stream err (snd (child_output env argv)) ?w2"
    by (simp add: run_program_def)
  moreover have "only_written out err w ?w1" by (rule only_written_spawned)
  moreover have "only_written out err ?w1 ?w2" by (simp add: only_written_write)
  moreover have "only_written out err ?w2 (write_stream err (snd (child_output env argv)) ?w2)"
    by (simp add: only_written_write)
  ultimately show ?thesis by (blast intro: only_written_trans)
next
  case (Some e)
  with assms show ?thesis by (simp add: run_program_def)
qed

lemma only_written_handle_all:
  assumes "handle_all env cmds out err w = (x, w')"
  shows "only_written out err w w'"
proof (cases cmds)
  case Nil
  with assms show ?thesis
    by (auto simp: handle_all_def command_not_found_def only_written_write)
next
  case (Cons cmd args)
  define is_echo where "is_echo \<longleftrightarrow> cmd = ''echo''"
  define is_type where "is_type \<longleftrightarrow> cmd = ''type'' \<and> length args = 1"
  define is_exit where "is_exit \<longleftrightarrow> cmd = ''exit'' \<and> args = [''0'']"
  define is_pwd where "is_pwd \<longleftrightarrow> cmd = ''pwd'' \<and> args = []"
  define is_cd where "is_cd \<longleftrightarrow> cmd = ''cd'' \<and> length args = 1"
  have h: "handle_all env cmds out err w =
      (if is_echo then (None, write_stream out (join_space args @ newline) w)
       else if is_type then type_command env (hd args) out err w
       else if is_exit then (Some (SystemExit 0), w)
       else if is_pwd then (None, write_stream out (w_cwd w @ newline) w)
       else if is_cd then cd env (hd args) out err w
       else if PROGRAMS_IN_PATH env cmd \<noteq> None then run_program env (cmd # args) out err w
       else command_not_found cmds out w)"
    unfolding is_echo_def is_type_def is_exit_def is_pwd_def is_cd_def
    by (simp add: handle_all_def Cons)
  show ?thesis
    using assms unfolding h
    by (auto simp: only_written_write command_not_found_def
        intro: only_written_type_command only_written_cd only_written_run_program
        split: if_splits)
qed

lemma files_inv_only_written:
  assumes "files_inv old fr w" and "only_written (l_out fr) (l_err fr) w w'"
  shows "files_inv old fr w'"
proof -
  let ?n = "length old"
  from assms(2) have len: "length (w_files w') = length (w_files w)"
    and cl: "\<And>k. k < length (w_files w) \<Longrightarrow> f_closed (w_files w' ! k) = f_closed (w_files w ! k)"
    and same: "\<And>k. k < length (w_files w) \<Longrightarrow> l_out fr \<noteq> FileObj k \<Longrightarrow> l_err fr \<noteq> FileObj k
        \<Longrightarrow> w_files w' ! k = w_files w ! k"
    by (auto simp: only_written_def)
  from assms(1) have n: "?n \<le> length (w_files w)" and pre: "take ?n (w_files w) = old"
    and so: "own_stream ?n (length (w_files w)) (l_out fr) (l_close_out fr)"
    and se: "own_stream ?n (length (w_files w)) (l_err fr) (l_close_err fr)"
    by (auto simp: files_inv_def)
  have "take ?n (w_files w') = take ?n (w_files w)"
  proof (rule nth_equalityI)
    show "length (take ?n (w_files w')) = length (take ?n (w_files w))" by (simp add: len)
  next
    fix k assume "k < length (take ?n (w_files w'))"
    then have k: "k < ?n" "k < length (w_files w)" by (simp_all add: len)
    from so k(1) have "l_out fr \<noteq> FileObj k" by (auto simp: own_stream_def)
    moreover from se k(1) have "l_err fr \<noteq> FileObj k" by (auto simp: own_stream_def)
    ultimately show "take ?n (w_files w') ! k = take ?n (w_files w) ! k"
      using same [OF k(2)] k by simp
  qed
  with pre have "take ?n (w_files w') = old" by simp
  with assms(1) len cl show ?thesis
    by (auto simp: files_inv_def)
qed

lemma py_close_files:
  "length (w_files (py_close s w)) = length (w_files w)"
  "k < length (w_files w) \<Longrightarrow>
     f_closed (w_files (py_close s w) ! k) \<longleftrightarrow> f_closed (w_files w ! k) \<or> s = FileObj k"
  "(\<And>h. s = FileObj h \<Longrightarrow> n \<le> h) \<Longrightarrow> take n (w_files (py_close s w)) = take n (w_files w)"
  by (cases s; auto simp: nth_update_cases take_update_cancel)+

lemma files_inv_finally_close:
  assumes "files_inv old fr w"
  shows "\<exists>new. w_files (finally_close fr w) = old @ new \<and> (\<forall>f \<in> set new. f_closed f)"
proof -
  let ?n = "length old" and ?w' = "finally_close fr w"
  let ?w1 = "if l_close_out fr then py_close (l_out fr) w else w"
  have w': "?w' = (if l_close_err fr then py_close (l_err fr) ?w1 else ?w1)"
    by (simp add: finally_close_def)
  from assms have n: "?n \<le> length (w_files w)" and pre: "take ?n (w_files w) = old"
    and so: "own_stream ?n (length (w_files w)) (l_out fr) (l_close_out fr)"
    and se: "own_stream ?n (length (w_files w)) (l_err fr) (l_close_err fr)"
    and named: "\<And>k. ?n \<le> k \<Longrightarrow> k < length (w_files w) \<Longrightarrow> \<not> f_closed (w_files w ! k)
        \<Longrightarrow> l_out fr = FileObj k \<or> l_err fr = FileObj k"
    by (auto simp: files_inv_def)
  have len1: "length (w_files ?w1) = length (w_files w)"
    by (simp add: py_close_files(1))
  have len: "length (w_files ?w') = length (w_files w)"
    unfolding w' using len1 by (simp add: py_close_files(1))
  have out_h: "l_out fr = FileObj h \<Longrightarrow> ?n \<le> h \<and> l_close_out fr" for h
    using so by (simp add: own_stream_def)
  have err_h: "l_err fr = FileObj h \<Longrightarrow> ?n \<le> h \<and> l_close_err fr" for h
    using se by (simp add: own_stream_def)
  have pre1: "take ?n (w_files ?w1) = old"
    using pre out_h by (simp add: py_close_files(3))
  have pre': "take ?n (w_files ?w') = old"
    unfolding w' using pre1 err_h by (simp add: py_close_files(3))
  have closed: "f_closed (w_files ?w' ! k)" if k: "?n \<le> k" "k < length (w_files w)" for k
  proof -
    have c1: "f_closed (w_files ?w1 ! k) \<longleftrightarrow>
        f_closed (w_files w ! k) \<or> (l_close_out fr \<and> l_out fr = FileObj k)"
      using k(2) by (simp add: py_close_files(2))
    have k1: "k < length (w_files ?w1)" using k(2) len1 by simp
    have c2: "f_closed (w_files ?w' ! k) \<longleftrightarrow>
        f_closed (w_files ?w1 ! k) \<or> (l_close_err fr \<and> l_err fr = FileObj k)"
      unfolding w' using k1 by (simp add: py_close_files(2))
    show ?thesis
    proof (cases "f_closed (w_files w ! k)")
      case True
      with c1 c2 show ?thesis by simp
    next
      case False
      from named [OF k this] out_h err_h c1 c2 show ?thesis by blast
    qed
  qed
  have "w_files ?w' = old @ drop ?n (w_files ?w')"
    using pre' append_take_drop_id [of ?n "w_files ?w'"] by simp
  moreover have "\<forall>f \<in> set (drop ?n (w_files ?w')). f_closed f"
    using closed len by (auto simp: in_set_conv_nth)
  ultimately show ?thesis by blast
qed

lemma loop_body_closes_files:
  assumes "loop_body env line w = (x, w')"
  shows "\<exists>new. w_files w' = w_files w @ new \<and> (\<forall>f \<in> set new. f_closed f)"
proof (cases "shlex_split line")
  case (Inl e)
  with assms have "w' = w" by (simp add: loop_body_def)
  then show ?thesis by simp
next
  case (Inr cmds)
  obtain y fr1 w1 where red: "redirections env (locals0 cmds) w = (y, fr1, w1)"
    by (cases "redirections env (locals0 cmds) w")
  from files_inv_redirections [OF files_inv_start red]
  have inv1: "files_inv (w_files w) fr1 w1" .
  obtain z fr2 w2 where tb: "try_body env (locals0 cmds) w = (z, fr2, w2)"
    by (cases "try_body env (locals0 cmds) w")
  have "files_inv (w_files w) fr2 w2"
  proof (cases y)
    case None
    obtain h w3 where h: "handle_all env (l_cmds fr1) (l_out fr1) (l_err fr1) w1 = (h, w3)"
      by (cases "handle_all env (l_cmds fr1) (l_out fr1) (l_err fr1) w1")
    with tb red None have "fr2 = fr1" "w2 = w3" by (simp_all add: try_body_def)
    with files_inv_only_written [OF inv1 only_written_handle_all [OF h]] show ?thesis by simp
  next
    case (Some e)
    with tb red have "fr2 = fr1" "w2 = w1" by (simp_all add: try_body_def)
    with inv1 show ?thesis by simp
  qed
  from files_inv_finally_close [OF this] assms Inr tb show ?thesis
    by (simp add: loop_body_def)
qed

subsection \<open>Files opened for redirection (C3)\<close>

text \<open>
  Claim C3: every file object opened while a line is handled is closed when the turn of
  the loop for that line ends, whichever way it ends (\<open>x\<close> is the error the turn raises,
  if it raises one), so before the next prompt; the file objects that were there before
  the turn are as they were. The \<^verbatim>\<open>finally\<close> clause closes what \<^verbatim>\<open>out\<close> and \<^verbatim>\<open>err\<close> name
  at the end, and a file object that a later \<^verbatim>\<open>open\<close> for the same channel replaced was
  closed when the name was bound again, nothing else referring to it.
\<close>

theorem C3_opened_files_closed:
  assumes "loop_body env line w = (x, w')"
  shows "\<exists>new. w_files w' = w_files w @ new \<and> (\<forall>f \<in> set new. f_closed f)"
  using assms by (rule loop_body_closes_files)

text \<open>
  The theorem at the line \<^verbatim>\<open>echo hi > a >> b\<close>, with a truncate and an append operator
  for the standard output: \<^verbatim>\<open>a\<close> and \<^verbatim>\<open>b\<close> are opened, the text goes to \<^verbatim>\<open>b\<close>, and
  both are closed. And at the line \<^verbatim>\<open>echo > a 2> /nodir/x\<close>, which raises after \<^verbatim>\<open>a\<close>
  was opened: \<^verbatim>\<open>a\<close> is closed.
\<close>

theorem C3_opened_files_closed_witness:
  "fst (loop_body example_env ''echo hi > a >> b'' example_world) = None
   \<and> w_files example_world = []
   \<and> list_all f_closed (w_files (snd (loop_body example_env ''echo hi > a >> b'' example_world)))
   \<and> map f_path (w_files (snd (loop_body example_env ''echo hi > a >> b'' example_world)))
       = [''a'', ''b'']
   \<and> map f_written (w_files (snd (loop_body example_env ''echo hi > a >> b'' example_world)))
       = [[], ''hi'' @ newline]
   \<and> fst (loop_body example_env ''echo > a 2> /nodir/x'' example_world)
       = Some (OSError FileNotFoundError)
   \<and> list_all f_closed (w_files (snd (loop_body example_env ''echo > a 2> /nodir/x'' example_world)))
   \<and> map f_path (w_files (snd (loop_body example_env ''echo > a 2> /nodir/x'' example_world)))
       = [''a'']"
proof -
  have e: "w_files example_world = []" by (simp add: example_world_def)
  have c: "list_all f_closed (w_files (snd (loop_body example_env line example_world)))" for line
  proof -
    from C3_opened_files_closed [of example_env line example_world
        "fst (loop_body example_env line example_world)"
        "snd (loop_body example_env line example_world)"]
    obtain new where "w_files (snd (loop_body example_env line example_world))
        = w_files example_world @ new" "\<forall>f \<in> set new. f_closed f"
      by auto
    then show ?thesis by (simp add: e list_all_iff)
  qed
  have v1: "fst (loop_body example_env ''echo hi > a >> b'' example_world) = None"
    and v2: "map f_path (w_files (snd (loop_body example_env ''echo hi > a >> b'' example_world)))
       = [''a'', ''b'']"
    and v3: "map f_written (w_files (snd (loop_body example_env ''echo hi > a >> b'' example_world)))
       = [[], ''hi'' @ newline]"
    and v4: "fst (loop_body example_env ''echo > a 2> /nodir/x'' example_world)
       = Some (OSError FileNotFoundError)"
    and v5: "map f_path (w_files (snd (loop_body example_env ''echo > a 2> /nodir/x'' example_world)))
       = [''a'']"
    by code_simp+
  from v1 e c [of "''echo hi > a >> b''"] v2 v3 v4 c [of "''echo > a 2> /nodir/x''"] v5
  show ?thesis by (intro conjI)
qed

subsection \<open>Lines of words and redirections\<close>

lemma redir_ops_cases:
  "op \<in> set redir_ops \<longleftrightarrow>
     op = ''>'' \<or> op = ''1>'' \<or> op = ''>>'' \<or> op = ''1>>'' \<or> op = ''2>'' \<or> op = ''2>>''"
  by (auto simp: redir_ops_def)

lemma list_index_append_last: "x \<notin> set ts \<Longrightarrow> list_index (ts @ [x]) x = Some (length ts)"
  by (induction ts) auto

lemma ops_of_simps [simp]:
  "ops_of [] = {}"
  "ops_of (Word s # items) = ops_of items"
  "ops_of (Redir rop tgt # items) = insert rop (ops_of items)"
  by (simp_all add: ops_of_def)

lemma remove_redir_None_iff: "remove_redir rop items = None \<longleftrightarrow> rop \<notin> ops_of items"
  by (induction rop items rule: remove_redir.induct) auto

lemma tokens_ops:
  "wf_items items \<Longrightarrow> rop \<in> set redir_ops \<Longrightarrow>
     rop \<in> set (tokens_of items) \<longleftrightarrow> rop \<in> ops_of items"
  by (induction items rule: wf_items.induct) auto

lemma remove_redir_first:
  "items = pre @ Redir rop tgt # post \<Longrightarrow> rop \<notin> ops_of pre \<Longrightarrow>
     remove_redir rop items = Some (tgt, pre @ post)"
proof (induction pre arbitrary: items)
  case Nil
  then show ?case by simp
next
  case (Cons it pre)
  then show ?case by (cases it) auto
qed

lemma remove_redir_Some:
  assumes "remove_redir rop items = Some (tgt, rest)"
  shows "\<exists>pre post. redirs items = pre @ (rop, tgt) # post \<and> redirs rest = pre @ post
      \<and> rop \<notin> fst ` set pre"
    and "words rest = words items"
    and "wf_items items \<Longrightarrow> wf_items rest"
  using assms
proof (induction rop items arbitrary: rest rule: remove_redir.induct)
  case (1 rop)
  { case 1 then show ?case by simp }
  { case 2 then show ?case by simp }
  { case 3 then show ?case by simp }
next
  case (2 rop s items)
  { case 1
    then obtain r where r: "remove_redir rop items = Some (tgt, r)" "rest = Word s # r"
      by auto
    from "2.IH"(1) [OF r(1)] r(2) show ?case by simp }
  { case 2
    then obtain r where r: "remove_redir rop items = Some (tgt, r)" "rest = Word s # r"
      by auto
    from "2.IH"(2) [OF r(1)] r(2) show ?case by simp }
  { case 3
    then obtain r where r: "remove_redir rop items = Some (tgt, r)" "rest = Word s # r"
      by auto
    from "2.IH"(3) [OF _ r(1)] r(2) 3 show ?case by simp }
next
  case (3 rop rop' tgt' items)
  { case 1
    show ?case
    proof (cases "rop' = rop")
      case True
      with 1 have "tgt = tgt'" "rest = items" by simp_all
      with True show ?thesis by (intro exI [of _ "[]"] exI [of _ "redirs items"]) simp
    next
      case False
      with 1 obtain r where r: "remove_redir rop items = Some (tgt, r)"
        "rest = Redir rop' tgt' # r" by auto
      from "3.IH"(1) [OF False r(1)] obtain pre post where
        "redirs items = pre @ (rop, tgt) # post" "redirs r = pre @ post" "rop \<notin> fst ` set pre"
        by blast
      with False r(2) show ?thesis
        by (intro exI [of _ "(rop', tgt') # pre"] exI [of _ post]) simp
    qed }
  { case 2
    show ?case
    proof (cases "rop' = rop")
      case True
      with 2 show ?thesis by simp
    next
      case False
      with 2 obtain r where r: "remove_redir rop items = Some (tgt, r)"
        "rest = Redir rop' tgt' # r" by auto
      from "3.IH"(2) [OF False r(1)] r(2) show ?thesis by simp
    qed }
  { case 3
    show ?case
    proof (cases "rop' = rop")
      case True
      with 3 show ?thesis by simp
    next
      case False
      with 3 obtain r where r: "remove_redir rop items = Some (tgt, r)"
        "rest = Redir rop' tgt' # r" by auto
      from "3.IH"(3) [OF False _ r(1)] r(2) 3 show ?thesis by simp
    qed }
qed

lemma remove_redir_subset:
  assumes "remove_redir rop items = Some (tgt, rest)"
  shows "set (redirs rest) \<subseteq> set (redirs items)" and "ops_of rest \<subseteq> ops_of items"
    and "(rop, tgt) \<in> set (redirs items)"
  using remove_redir_Some(1) [OF assms] by (auto simp: ops_of_def)

lemma remove_redir_other:
  assumes "remove_redir a items = Some (t, rest)" and "rop \<noteq> a"
    and "remove_redir rop items = Some (tgt, rest')"
  shows "\<exists>rest''. remove_redir rop rest = Some (tgt, rest'')"
  using assms
proof (induction a items arbitrary: rest rest' rule: remove_redir.induct)
  case (1 a)
  then show ?case by simp
next
  case (2 a s items)
  then show ?case by fastforce
next
  case (3 a rop' tgt' items)
  show ?case
  proof (cases "rop' = a")
    case True
    with 3 show ?thesis by auto
  next
    case False
    with "3.prems" obtain r where r: "remove_redir a items = Some (t, r)"
      "rest = Redir rop' tgt' # r" by auto
    show ?thesis
    proof (cases "rop' = rop")
      case True
      with r show ?thesis using "3.prems"(3) by simp
    next
      case F2: False
      with "3.prems"(3) obtain r' where "remove_redir rop items = Some (tgt, r')" by auto
      from "3.IH" [OF False r(1) "3.prems"(2) this] r(2) F2 show ?thesis by auto
    qed
  qed
qed

text \<open>The tokens around the first redirection with operator \<open>rop\<close>.\<close>

lemma remove_redir_index:
  assumes "wf_items items" and "rop \<in> set redir_ops"
    and "remove_redir rop items = Some (tgt, rest)"
  shows "\<exists>i. list_index (tokens_of items @ sfx) rop = Some i
      \<and> i + 1 < length (tokens_of items @ sfx)
      \<and> (tokens_of items @ sfx) ! (i + 1) = tgt
      \<and> take i (tokens_of items @ sfx) @ drop (i + 2) (tokens_of items @ sfx)
          = tokens_of rest @ sfx"
  using assms
proof (induction rop items arbitrary: rest rule: remove_redir.induct)
  case (1 rop)
  then show ?case by simp
next
  case (2 rop s items)
  then obtain r where r: "remove_redir rop items = Some (tgt, r)" "rest = Word s # r"
    by auto
  from "2.prems" have ne: "s \<noteq> rop" and wf: "wf_items items" by auto
  from "2.IH" [OF wf "2.prems"(2) r(1)] obtain i where
    "list_index (tokens_of items @ sfx) rop = Some i"
    "i + 1 < length (tokens_of items @ sfx)"
    "(tokens_of items @ sfx) ! (i + 1) = tgt"
    "take i (tokens_of items @ sfx) @ drop (i + 2) (tokens_of items @ sfx) = tokens_of r @ sfx"
    by blast
  with ne r(2) show ?case by (intro exI [of _ "Suc i"]) simp
next
  case (3 rop rop' tgt' items)
  show ?case
  proof (cases "rop' = rop")
    case True
    with "3.prems" show ?thesis by (intro exI [of _ 0]) simp
  next
    case False
    with "3.prems" obtain r where r: "remove_redir rop items = Some (tgt, r)"
      "rest = Redir rop' tgt' # r" by auto
    from "3.prems" have ne: "tgt' \<noteq> rop" and wf: "wf_items items" by auto
    from "3.IH" [OF False wf "3.prems"(2) r(1)] obtain i where
      "list_index (tokens_of items @ sfx) rop = Some i"
      "i + 1 < length (tokens_of items @ sfx)"
      "(tokens_of items @ sfx) ! (i + 1) = tgt"
      "take i (tokens_of items @ sfx) @ drop (i + 2) (tokens_of items @ sfx) = tokens_of r @ sfx"
      by blast
    with False ne r(2) show ?thesis by (intro exI [of _ "Suc (Suc i)"]) simp
  qed
qed

subsection \<open>One statement of the extraction on a line of words and redirections\<close>

lemma opened_py_close [simp]: "opened (py_close s w) = opened w"
proof (cases s)
  case (FileObj h)
  have "map (\<lambda>f. (f_path f, f_mode f)) ((w_files w)[h := (w_files w ! h)\<lparr>f_closed := True\<rparr>])
      = map (\<lambda>f. (f_path f, f_mode f)) (w_files w)"
    by (rule nth_equalityI) (simp_all add: nth_update_cases)
  with FileObj show ?thesis by (simp add: opened_def)
qed (simp_all add: opened_def)

lemma opened_drop_reference [simp]: "opened (drop_reference s w) = opened w"
  by (cases s) (simp_all add: drop_reference_def del: py_close.simps)

lemma redirect_fires:
  assumes "wf_items items" and "rop \<in> set redir_ops"
    and "l_cmds fr = tokens_of items @ sfx"
    and "remove_redir rop items = Some (tgt, rest)"
  shows "open_error env tgt mode = Some e \<Longrightarrow>
      redirect env rop to_err mode fr w = (Some (OSError e), fr, w)"
    and "open_error env tgt mode = None \<Longrightarrow>
      \<exists>fr' w'. redirect env rop to_err mode fr w = (None, fr', w')
        \<and> l_cmds fr' = tokens_of rest @ sfx \<and> opened w' = opened w @ [(tgt, mode)]"
proof -
  from remove_redir_index [OF assms(1,2,4), of sfx] obtain i where
    i: "list_index (l_cmds fr) rop = Some i" "i + 1 < length (l_cmds fr)"
      "l_cmds fr ! (i + 1) = tgt"
      "take i (l_cmds fr) @ drop (i + 2) (l_cmds fr) = tokens_of rest @ sfx"
    unfolding assms(3) by blast
  show "open_error env tgt mode = Some e \<Longrightarrow>
      redirect env rop to_err mode fr w = (Some (OSError e), fr, w)"
    using i by (simp add: redirect_def py_open_def)
  show "open_error env tgt mode = None \<Longrightarrow>
      \<exists>fr' w'. redirect env rop to_err mode fr w = (None, fr', w')
        \<and> l_cmds fr' = tokens_of rest @ sfx \<and> opened w' = opened w @ [(tgt, mode)]"
    using i by (simp add: redirect_def py_open_def) (simp add: opened_def)
qed

lemma redirect_trailing:
  assumes "wf_items items" and "rop \<in> set redir_ops"
    and "l_cmds fr = tokens_of items @ [rop]" and "rop \<notin> ops_of items"
  shows "redirect env rop to_err mode fr w = (Some IndexError, fr, w)"
proof -
  from assms(1,2,4) have "rop \<notin> set (tokens_of items)" by (simp add: tokens_ops)
  then show ?thesis
    by (simp add: redirect_def assms(3) list_index_append_last)
qed

text \<open>
  A statement that looks for \<open>a\<close>, else for \<open>b\<close>, on a well-formed line followed by
  \<open>sfx\<close>, in which neither occurs: it finds nothing, or the target of the operator it
  selects cannot be opened, or it opens that target and takes the redirection out.
\<close>

lemma step_fn_cases [consumes 5, case_names pass fail fire]:
  assumes wf: "wf_items items" and a: "a \<in> set redir_ops" and b: "b \<in> set redir_ops"
    and cm: "l_cmds fr = tokens_of items @ sfx" and sfx: "a \<notin> set sfx \<and> b \<notin> set sfx"
  obtains
    (pass) "a \<notin> ops_of items" "b \<notin> ops_of items"
      "step_fn env (a, b, to_err, mode) fr w = (None, fr, w)"
  | (fail) rop tgt rest e where
      "rop = a \<or> (rop = b \<and> a \<notin> ops_of items)"
      "remove_redir rop items = Some (tgt, rest)" "open_error env tgt mode = Some e"
      "step_fn env (a, b, to_err, mode) fr w = (Some (OSError e), fr, w)"
  | (fire) rop tgt rest fr' w' where
      "rop = a \<or> (rop = b \<and> a \<notin> ops_of items)"
      "remove_redir rop items = Some (tgt, rest)" "open_error env tgt mode = None"
      "step_fn env (a, b, to_err, mode) fr w = (None, fr', w')"
      "l_cmds fr' = tokens_of rest @ sfx" "opened w' = opened w @ [(tgt, mode)]"
proof -
  have ina: "a \<in> set (l_cmds fr) \<longleftrightarrow> a \<in> ops_of items"
    using sfx by (simp add: cm tokens_ops [OF wf a])
  have inb: "b \<in> set (l_cmds fr) \<longleftrightarrow> b \<in> ops_of items"
    using sfx by (simp add: cm tokens_ops [OF wf b])
  define rop where "rop = (if a \<in> ops_of items then a else b)"
  show thesis
  proof (cases "a \<in> ops_of items \<or> b \<in> ops_of items")
    case False
    with ina inb show ?thesis by (intro pass) simp_all
  next
    case True
    then have sel: "rop = a \<or> (rop = b \<and> a \<notin> ops_of items)" and "rop \<in> ops_of items"
      by (auto simp: rop_def)
    then obtain tgt rest where rr: "remove_redir rop items = Some (tgt, rest)"
      using remove_redir_None_iff [of rop items] by (cases "remove_redir rop items") auto
    have rop_ops: "rop \<in> set redir_ops" using a b by (simp add: rop_def)
    have st: "step_fn env (a, b, to_err, mode) fr w = redirect env rop to_err mode fr w"
      using True ina inb by (auto simp: rop_def)
    show ?thesis
    proof (cases "open_error env tgt mode")
      case None
      from redirect_fires(2) [OF wf rop_ops cm rr None, of to_err w]
      obtain fr' w' where "redirect env rop to_err mode fr w = (None, fr', w')"
        "l_cmds fr' = tokens_of rest @ sfx" "opened w' = opened w @ [(tgt, mode)]"
        by blast
      with sel rr None st show ?thesis by (intro fire [of rop tgt rest fr' w']) simp_all
    next
      case (Some e)
      from redirect_fires(1) [OF wf rop_ops cm rr Some, of to_err w] sel rr Some st
      show ?thesis by (intro fail [of rop tgt rest e]) simp_all
    qed
  qed
qed

lemma step_fn_trailing:
  assumes "wf_items items" and "a \<in> set redir_ops" and "b \<in> set redir_ops"
    and "l_cmds fr = tokens_of items @ [rop]" and "rop \<notin> ops_of items"
    and "rop = a \<or> (rop = b \<and> a \<notin> ops_of items)"
  shows "step_fn env (a, b, to_err, mode) fr w = (Some IndexError, fr, w)"
proof -
  have rop: "rop \<in> set redir_ops" using assms(2,3,6) by auto
  have tr: "redirect env rop to_err mode fr w = (Some IndexError, fr, w)"
    by (rule redirect_trailing [OF assms(1) rop assms(4,5)])
  show ?thesis
  proof (cases "rop = a")
    case True
    with tr show ?thesis by (simp add: assms(4))
  next
    case False
    with assms(6) have b: "rop = b" and na: "a \<notin> ops_of items" by auto
    from na have "a \<notin> set (tokens_of items)" by (simp add: tokens_ops [OF assms(1,2)])
    with False b tr show ?thesis by (simp add: assms(4))
  qed
qed

subsection \<open>The extraction as a whole on a line of words and redirections\<close>

lemma the_steps_props:
  "\<forall>s \<in> set the_steps. alts s \<subseteq> set redir_ops \<and> (\<forall>r \<in> alts s. mode_of r = smode s)"
  by (simp add: the_steps_def alts_def smode_def redir_ops_def mode_of_def)

lemma run_steps_trailing:
  assumes "wf_items items" and "rop \<in> set redir_ops" and "rop \<notin> ops_of items"
    and "l_cmds fr = tokens_of items @ [rop]"
    and "\<forall>s \<in> set before. alts s \<subseteq> set redir_ops \<and> rop \<notin> alts s
          \<and> (\<forall>(r, t) \<in> set (redirs items). r \<in> alts s \<longrightarrow> open_error env t (smode s) = None)"
    and "a \<in> set redir_ops" and "b \<in> set redir_ops"
    and "rop = a \<or> (rop = b \<and> a \<notin> ops_of items)"
  shows "\<exists>fr' w'. run_steps env (before @ (a, b, to_err, mode) # after) fr w
      = (Some IndexError, fr', w')"
  using assms(1,3,4,5,8)
proof (induction before arbitrary: items fr w)
  case Nil
  from step_fn_trailing [OF Nil(1) assms(6,7) Nil(3,2,5)] show ?case by simp
next
  case (Cons s before)
  obtain a' b' te' m' where s: "s = (a', b', te', m')" by (cases s)
  from Cons.prems(4) have a': "a' \<in> set redir_ops" and b': "b' \<in> set redir_ops"
    and ne: "a' \<notin> set [rop] \<and> b' \<notin> set [rop]"
    and opens: "\<And>r t. (r, t) \<in> set (redirs items) \<Longrightarrow> r = a' \<or> r = b'
        \<Longrightarrow> open_error env t m' = None"
    by (auto simp: s alts_def smode_def)
  from Cons.prems(1) a' b' Cons.prems(3) ne show ?case
  proof (cases rule: step_fn_cases [where env = env and to_err = te' and mode = m' and w = w])
    case pass
    have h0: "\<forall>s \<in> set before. alts s \<subseteq> set redir_ops \<and> rop \<notin> alts s
          \<and> (\<forall>(r, t) \<in> set (redirs items). r \<in> alts s \<longrightarrow> open_error env t (smode s) = None)"
      using Cons.prems(4) by simp
    from Cons.IH [OF Cons.prems(1,2,3) h0 Cons.prems(5)]
    obtain fr' w' where
      "run_steps env (before @ (a, b, to_err, mode) # after) fr w = (Some IndexError, fr', w')"
      by blast
    with pass(3) show ?thesis by (simp add: s)
  next
    case (fail r tgt rest e)
    from remove_redir_subset(3) [OF fail(2)] fail(1) have "open_error env tgt m' = None"
      by (intro opens [of r tgt]) auto
    with fail(3) show ?thesis by simp
  next
    case (fire r tgt rest fr1 w1)
    have sub: "set (redirs rest) \<subseteq> set (redirs items)" "ops_of rest \<subseteq> ops_of items"
      by (rule remove_redir_subset [OF fire(2)])+
    have wf1: "wf_items rest" by (rule remove_redir_Some(3) [OF fire(2) Cons.prems(1)])
    have n1: "rop \<notin> ops_of rest" using sub(2) Cons.prems(2) by blast
    have h1: "\<forall>s \<in> set before. alts s \<subseteq> set redir_ops \<and> rop \<notin> alts s
          \<and> (\<forall>(r, t) \<in> set (redirs rest). r \<in> alts s \<longrightarrow> open_error env t (smode s) = None)"
      using Cons.prems(4) sub(1) by fastforce
    have sel1: "rop = a \<or> (rop = b \<and> a \<notin> ops_of rest)"
      using Cons.prems(5) sub(2) by blast
    from Cons.IH [OF wf1 n1 fire(5) h1 sel1]
    obtain fr' w' where
      "run_steps env (before @ (a, b, to_err, mode) # after) fr1 w1 = (Some IndexError, fr', w')"
      by blast
    with fire(4) show ?thesis by (simp add: s)
  qed
qed

lemma run_steps_open_fails:
  assumes "wf_items items" and "l_cmds fr = tokens_of items"
    and "remove_redir rop items = Some (tgt, rest)"
    and "open_error env tgt mode = Some e" and "mode_of rop = mode"
    and "\<forall>s \<in> set before. alts s \<subseteq> set redir_ops \<and> rop \<notin> alts s
          \<and> (\<forall>r \<in> alts s. mode_of r = smode s)"
    and "a \<in> set redir_ops" and "b \<in> set redir_ops"
    and "rop = a \<or> (rop = b \<and> a \<notin> ops_of items)"
  shows "\<exists>e' fr' w'. run_steps env (before @ (a, b, to_err, mode) # after) fr w
        = (Some (OSError e'), fr', w')
      \<and> (\<exists>(r, t) \<in> set (redirs items). open_error env t (mode_of r) = Some e')"
  using assms(1,2,3,6,9)
proof (induction before arbitrary: items fr w rest)
  case Nil
  have cm: "l_cmds fr = tokens_of items @ []" using Nil(2) by simp
  have sfx: "a \<notin> set [] \<and> b \<notin> set []" by simp
  have rop_in: "rop \<in> ops_of items"
    using Nil(3) remove_redir_None_iff [of rop items] by auto
  have same: "r = rop" if "r = a \<or> (r = b \<and> a \<notin> ops_of items)" "r \<in> ops_of items" for r
    using that Nil(5) rop_in by auto
  from Nil(1) assms(7,8) cm sfx show ?case
  proof (cases rule: step_fn_cases [where env = env and to_err = to_err and mode = mode and w = w])
    case pass
    with Nil(3,5) show ?thesis by (auto simp: remove_redir_None_iff [symmetric])
  next
    case (fail r t rest' e')
    from remove_redir_subset(3) [OF fail(2)] have rin: "(r, t) \<in> set (redirs items)" .
    then have "r \<in> ops_of items" by (force simp: ops_of_def)
    with fail(1) have "r = rop" by (rule same)
    with fail(3) rin assms(5) have "\<exists>(r, t) \<in> set (redirs items). open_error env t (mode_of r) = Some e'"
      by auto
    with fail(4) show ?thesis by simp
  next
    case (fire r t rest' fr' w')
    from remove_redir_subset(3) [OF fire(2)] have "r \<in> ops_of items"
      by (force simp: ops_of_def)
    with fire(1) have "r = rop" by (rule same)
    with fire(2,3) Nil(3) assms(4) show ?thesis by simp
  qed
next
  case (Cons s before)
  obtain a' b' te' m' where s: "s = (a', b', te', m')" by (cases s)
  from Cons.prems(4) have a': "a' \<in> set redir_ops" and b': "b' \<in> set redir_ops"
    and ne: "rop \<noteq> a'" "rop \<noteq> b'"
    and md: "mode_of a' = m'" "mode_of b' = m'"
    by (auto simp: s alts_def smode_def)
  have cm: "l_cmds fr = tokens_of items @ []" using Cons.prems(2) by simp
  have sfx: "a' \<notin> set [] \<and> b' \<notin> set []" by simp
  have rest_h: "\<forall>s \<in> set before. alts s \<subseteq> set redir_ops \<and> rop \<notin> alts s
          \<and> (\<forall>r \<in> alts s. mode_of r = smode s)"
    using Cons.prems(4) by simp
  from Cons.prems(1) a' b' cm sfx show ?case
  proof (cases rule: step_fn_cases [where env = env and to_err = te' and mode = m' and w = w])
    case pass
    from Cons.IH [OF Cons.prems(1,2,3) rest_h Cons.prems(5)] pass(3) show ?thesis
      by (simp add: s)
  next
    case (fail r t rest' e')
    from fail(1) md have "mode_of r = m'" by auto
    with fail(3) remove_redir_subset(3) [OF fail(2)]
    have "\<exists>(r, t) \<in> set (redirs items). open_error env t (mode_of r) = Some e'" by auto
    with fail(4) show ?thesis by (simp add: s)
  next
    case (fire r t rest' fr1 w1)
    from fire(1) ne have "rop \<noteq> r" by auto
    from remove_redir_other [OF fire(2) this Cons.prems(3)]
    obtain rest'' where rr: "remove_redir rop rest' = Some (tgt, rest'')" by blast
    have sub: "set (redirs rest') \<subseteq> set (redirs items)" "ops_of rest' \<subseteq> ops_of items"
      by (rule remove_redir_subset [OF fire(2)])+
    have wf1: "wf_items rest'" by (rule remove_redir_Some(3) [OF fire(2) Cons.prems(1)])
    have cm1: "l_cmds fr1 = tokens_of rest'" using fire(5) by simp
    have sel1: "rop = a \<or> (rop = b \<and> a \<notin> ops_of rest')"
      using Cons.prems(5) sub(2) by blast
    from Cons.IH [OF wf1 cm1 rr rest_h sel1] obtain e' fr' w' where
      "run_steps env (before @ (a, b, to_err, mode) # after) fr1 w1 = (Some (OSError e'), fr', w')"
      "\<exists>(r, t) \<in> set (redirs rest'). open_error env t (mode_of r) = Some e'"
      by blast
    with fire(4) sub(1) show ?thesis by (simp add: s) blast
  qed
qed

subsection \<open>An error of the extraction, seen from \<^verbatim>\<open>main\<close>\<close>

lemma main_extraction_error:
  assumes "shlex_split line = Inr cmds"
    and "redirections env (locals0 cmds) (write_stream SysStdout ''$ '' w) = (Some e, fr, w1)"
  shows "\<exists>w'. main env (line # rest) w = (e, w')
    \<and> w_stdout w' = w_stdout w @ ''$ '' \<and> w_stderr w' = w_stderr w
    \<and> w_cwd w' = w_cwd w \<and> w_spawned w' = w_spawned w
    \<and> (\<exists>new. w_files w' = w_files w @ new \<and> (\<forall>f \<in> set new. f_closed f))"
proof -
  let ?w = "write_stream SysStdout ''$ '' w" and ?w' = "finally_close fr w1"
  have lb: "loop_body env line ?w = (Some e, ?w')"
    using assms by (simp add: loop_body_def try_body_def)
  then have m: "main env (line # rest) w = (e, ?w')" by simp
  from io_unchanged_redirections [OF assms(2)] io_unchanged_finally_close [of w1 fr]
  have "io_unchanged ?w ?w'" by (rule io_unchanged_trans)
  then have io: "w_stdout ?w' = w_stdout w @ ''$ ''" "w_stderr ?w' = w_stderr w"
    "w_cwd ?w' = w_cwd w" "w_spawned ?w' = w_spawned w"
    by (simp_all add: io_unchanged_def)
  from loop_body_closes_files [OF lb]
  have "\<exists>new. w_files ?w' = w_files w @ new \<and> (\<forall>f \<in> set new. f_closed f)" by simp
  with m io show ?thesis by blast
qed

lemma redirections_trailing:
  assumes wf: "wf_items items" and rop: "rop \<in> set redir_ops" and nin: "rop \<notin> ops_of items"
    and a1: "rop = ''1>'' \<longrightarrow> ''>'' \<notin> ops_of items"
    and a2: "rop = ''1>>'' \<longrightarrow> ''>>'' \<notin> ops_of items"
    and opens: "\<forall>(r, t) \<in> set (redirs items).
        step_of r < step_of rop \<longrightarrow> open_error env t (mode_of r) = None"
    and cm: "l_cmds fr = tokens_of items @ [rop]"
  shows "\<exists>fr' w'. redirections env fr w = (Some IndexError, fr', w')"
proof -
  have ops: "''>'' \<in> set redir_ops" "''1>'' \<in> set redir_ops" "''>>'' \<in> set redir_ops"
    "''1>>'' \<in> set redir_ops" "''2>'' \<in> set redir_ops" "''2>>'' \<in> set redir_ops"
    by (simp_all add: redir_ops_def)
  let ?s1 = "(''>'', ''1>'', False, ModeW)" and ?s2 = "(''2>'', ''2>'', True, ModeW)"
  let ?s3 = "(''>>'', ''1>>'', False, ModeA)" and ?s4 = "(''2>>'', ''2>>'', True, ModeA)"
  have before: "\<forall>s \<in> set bs. alts s \<subseteq> set redir_ops \<and> rop \<notin> alts s
        \<and> (\<forall>(r, t) \<in> set (redirs items). r \<in> alts s \<longrightarrow> open_error env t (smode s) = None)"
    if "set bs \<subseteq> set the_steps"
      and "\<forall>s \<in> set bs. \<forall>r \<in> alts s. step_of r < step_of rop" for bs :: "step list"
  proof (rule ballI)
    fix s assume s: "s \<in> set bs"
    with that(1) the_steps_props have p: "alts s \<subseteq> set redir_ops" "\<forall>r \<in> alts s. mode_of r = smode s"
      by auto
    have q: "rop \<notin> alts s" using that(2) s by auto
    have "open_error env t (smode s) = None" if "(r, t) \<in> set (redirs items)" "r \<in> alts s" for r t
    proof -
      from \<open>r \<in> alts s\<close> s \<open>\<forall>s \<in> set bs. \<forall>r \<in> alts s. step_of r < step_of rop\<close>
      have "step_of r < step_of rop" by blast
      with opens that(1) have "open_error env t (mode_of r) = None" by blast
      with p(2) that(2) show ?thesis by simp
    qed
    with p(1) q show "alts s \<subseteq> set redir_ops \<and> rop \<notin> alts s
        \<and> (\<forall>(r, t) \<in> set (redirs items). r \<in> alts s \<longrightarrow> open_error env t (smode s) = None)"
      by blast
  qed
  from rop consider "rop = ''>''" | "rop = ''1>''" | "rop = ''2>''" | "rop = ''>>''"
    | "rop = ''1>>''" | "rop = ''2>>''"
    by (auto simp: redir_ops_cases)
  then show ?thesis
  proof cases
    case 1
    from run_steps_trailing [OF wf rop nin cm _ ops(1,2), where before = "[]" and env = env and to_err = False and mode = ModeW and after = "[?s2, ?s3, ?s4]" and w = w] 1
    show ?thesis by (simp add: redirections_run_steps the_steps_def del: step_fn.simps)
  next
    case 2
    from run_steps_trailing [OF wf rop nin cm _ ops(1,2), where before = "[]" and env = env and to_err = False and mode = ModeW and after = "[?s2, ?s3, ?s4]" and w = w] 2 a1
    show ?thesis by (simp add: redirections_run_steps the_steps_def del: step_fn.simps)
  next
    case 3
    have b: "\<forall>s \<in> set [?s1]. alts s \<subseteq> set redir_ops \<and> rop \<notin> alts s
        \<and> (\<forall>(r, t) \<in> set (redirs items). r \<in> alts s \<longrightarrow> open_error env t (smode s) = None)"
      by (rule before) (simp_all add: the_steps_def alts_def step_of_def 3)
    from run_steps_trailing [OF wf rop nin cm b ops(5,5), where to_err = True and mode = ModeW and after = "[?s3, ?s4]" and w = w] 3
    show ?thesis by (simp add: redirections_run_steps the_steps_def del: step_fn.simps)
  next
    case 4
    have b: "\<forall>s \<in> set [?s1, ?s2]. alts s \<subseteq> set redir_ops \<and> rop \<notin> alts s
        \<and> (\<forall>(r, t) \<in> set (redirs items). r \<in> alts s \<longrightarrow> open_error env t (smode s) = None)"
      by (rule before) (simp_all add: the_steps_def alts_def step_of_def 4)
    from run_steps_trailing [OF wf rop nin cm b ops(3,4), where to_err = False and mode = ModeA and after = "[?s4]" and w = w] 4
    show ?thesis by (simp add: redirections_run_steps the_steps_def del: step_fn.simps)
  next
    case 5
    have b: "\<forall>s \<in> set [?s1, ?s2]. alts s \<subseteq> set redir_ops \<and> rop \<notin> alts s
        \<and> (\<forall>(r, t) \<in> set (redirs items). r \<in> alts s \<longrightarrow> open_error env t (smode s) = None)"
      by (rule before) (simp_all add: the_steps_def alts_def step_of_def 5)
    from run_steps_trailing [OF wf rop nin cm b ops(3,4), where to_err = False and mode = ModeA and after = "[?s4]" and w = w] 5 a2
    show ?thesis by (simp add: redirections_run_steps the_steps_def del: step_fn.simps)
  next
    case 6
    have b: "\<forall>s \<in> set [?s1, ?s2, ?s3]. alts s \<subseteq> set redir_ops \<and> rop \<notin> alts s
        \<and> (\<forall>(r, t) \<in> set (redirs items). r \<in> alts s \<longrightarrow> open_error env t (smode s) = None)"
      by (rule before) (simp_all add: the_steps_def alts_def step_of_def 6)
    from run_steps_trailing [OF wf rop nin cm b ops(6,6), where to_err = True and mode = ModeA and after = "[]" and w = w] 6
    show ?thesis by (simp add: redirections_run_steps the_steps_def del: step_fn.simps)
  qed
qed

lemma redirections_open_fails:
  assumes wf: "wf_items items" and rop: "rop \<in> set redir_ops"
    and rr: "remove_redir rop items = Some (tgt, rest)"
    and a1: "rop = ''1>'' \<longrightarrow> ''>'' \<notin> ops_of items"
    and a2: "rop = ''1>>'' \<longrightarrow> ''>>'' \<notin> ops_of items"
    and fails: "open_error env tgt (mode_of rop) = Some e"
    and cm: "l_cmds fr = tokens_of items"
  shows "\<exists>e' fr' w'. redirections env fr w = (Some (OSError e'), fr', w')
      \<and> (\<exists>(r, t) \<in> set (redirs items). open_error env t (mode_of r) = Some e')"
proof -
  have ops: "''>'' \<in> set redir_ops" "''1>'' \<in> set redir_ops" "''>>'' \<in> set redir_ops"
    "''1>>'' \<in> set redir_ops" "''2>'' \<in> set redir_ops" "''2>>'' \<in> set redir_ops"
    by (simp_all add: redir_ops_def)
  let ?s1 = "(''>'', ''1>'', False, ModeW)" and ?s2 = "(''2>'', ''2>'', True, ModeW)"
  let ?s3 = "(''>>'', ''1>>'', False, ModeA)" and ?s4 = "(''2>>'', ''2>>'', True, ModeA)"
  have before: "\<forall>s \<in> set bs. alts s \<subseteq> set redir_ops \<and> rop \<notin> alts s
        \<and> (\<forall>r \<in> alts s. mode_of r = smode s)"
    if "set bs \<subseteq> set the_steps" and "\<forall>s \<in> set bs. rop \<notin> alts s" for bs :: "step list"
    using that the_steps_props by blast
  from rop consider "rop = ''>''" | "rop = ''1>''" | "rop = ''2>''" | "rop = ''>>''"
    | "rop = ''1>>''" | "rop = ''2>>''"
    by (auto simp: redir_ops_cases)
  then show ?thesis
  proof cases
    case 1
    then have f: "open_error env tgt ModeW = Some e" and m: "mode_of rop = ModeW"
      using fails by (simp_all add: mode_of_def)
    from run_steps_open_fails [OF wf cm rr f m _ ops(1,2), where before = "[]" and to_err = False and after = "[?s2, ?s3, ?s4]" and w = w] 1
    show ?thesis by (simp add: redirections_run_steps the_steps_def del: step_fn.simps)
  next
    case 2
    then have f: "open_error env tgt ModeW = Some e" and m: "mode_of rop = ModeW"
      using fails by (simp_all add: mode_of_def)
    from run_steps_open_fails [OF wf cm rr f m _ ops(1,2), where before = "[]" and to_err = False and after = "[?s2, ?s3, ?s4]" and w = w] 2 a1
    show ?thesis by (simp add: redirections_run_steps the_steps_def del: step_fn.simps)
  next
    case 3
    then have f: "open_error env tgt ModeW = Some e" and m: "mode_of rop = ModeW"
      using fails by (simp_all add: mode_of_def)
    have b: "\<forall>s \<in> set [?s1]. alts s \<subseteq> set redir_ops \<and> rop \<notin> alts s
        \<and> (\<forall>r \<in> alts s. mode_of r = smode s)"
      by (rule before) (simp_all add: the_steps_def alts_def 3)
    from run_steps_open_fails [OF wf cm rr f m b ops(5,5), where to_err = True and after = "[?s3, ?s4]" and w = w] 3
    show ?thesis by (simp add: redirections_run_steps the_steps_def del: step_fn.simps)
  next
    case 4
    then have f: "open_error env tgt ModeA = Some e" and m: "mode_of rop = ModeA"
      using fails by (simp_all add: mode_of_def)
    have b: "\<forall>s \<in> set [?s1, ?s2]. alts s \<subseteq> set redir_ops \<and> rop \<notin> alts s
        \<and> (\<forall>r \<in> alts s. mode_of r = smode s)"
      by (rule before) (simp_all add: the_steps_def alts_def 4)
    from run_steps_open_fails [OF wf cm rr f m b ops(3,4), where to_err = False and after = "[?s4]" and w = w] 4
    show ?thesis by (simp add: redirections_run_steps the_steps_def del: step_fn.simps)
  next
    case 5
    then have f: "open_error env tgt ModeA = Some e" and m: "mode_of rop = ModeA"
      using fails by (simp_all add: mode_of_def)
    have b: "\<forall>s \<in> set [?s1, ?s2]. alts s \<subseteq> set redir_ops \<and> rop \<notin> alts s
        \<and> (\<forall>r \<in> alts s. mode_of r = smode s)"
      by (rule before) (simp_all add: the_steps_def alts_def 5)
    from run_steps_open_fails [OF wf cm rr f m b ops(3,4), where to_err = False and after = "[?s4]" and w = w] 5 a2
    show ?thesis by (simp add: redirections_run_steps the_steps_def del: step_fn.simps)
  next
    case 6
    then have f: "open_error env tgt ModeA = Some e" and m: "mode_of rop = ModeA"
      using fails by (simp_all add: mode_of_def)
    have b: "\<forall>s \<in> set [?s1, ?s2, ?s3]. alts s \<subseteq> set redir_ops \<and> rop \<notin> alts s
        \<and> (\<forall>r \<in> alts s. mode_of r = smode s)"
      by (rule before) (simp_all add: the_steps_def alts_def 6)
    from run_steps_open_fails [OF wf cm rr f m b ops(6,6), where to_err = True and after = "[]" and w = w] 6
    show ?thesis by (simp add: redirections_run_steps the_steps_def del: step_fn.simps)
  qed
qed

subsection \<open>A redirection target that cannot be opened (C2)\<close>

text \<open>
  Claim C2, as the code has it. The line consists of words and redirections, every operator
  followed by its target; \<open>Redir rop tgt\<close> is the first redirection with the operator
  \<open>rop\<close>, the shell looks for that operator (for \<^verbatim>\<open>1>\<close> only when the line has no \<^verbatim>\<open>>\<close>,
  for \<^verbatim>\<open>1>>\<close> only when it has no \<^verbatim>\<open>>>\<close>), and \<open>tgt\<close> cannot be opened. Then \<^verbatim>\<open>main\<close>
  ends with the OSError of an \<^verbatim>\<open>open\<close> of a redirection of the line that fails: there
  is no \<^verbatim>\<open>except\<close> clause, so the loop does not go on. Until then the shell has written
  the prompt and nothing else to the standard output, nothing to the standard error, has
  changed no directory and spawned no process (\<^verbatim>\<open>handle_all\<close> was not called), and every
  file object opened for the line is closed.
\<close>

theorem C2_open_failure_ends_main:
  assumes "shlex_split line = Inr (tokens_of items)"
    and "wf_items items"
    and "items = pre @ Redir rop tgt # post" and "rop \<notin> ops_of pre"
    and "rop = ''1>'' \<longrightarrow> ''>'' \<notin> ops_of items"
    and "rop = ''1>>'' \<longrightarrow> ''>>'' \<notin> ops_of items"
    and "open_error env tgt (mode_of rop) = Some e"
  shows "\<exists>e' w'. main env (line # rest) w = (OSError e', w')
    \<and> (\<exists>(r, t) \<in> set (redirs items). open_error env t (mode_of r) = Some e')
    \<and> w_stdout w' = w_stdout w @ ''$ '' \<and> w_stderr w' = w_stderr w
    \<and> w_cwd w' = w_cwd w \<and> w_spawned w' = w_spawned w
    \<and> (\<exists>new. w_files w' = w_files w @ new \<and> (\<forall>f \<in> set new. f_closed f))"
proof -
  have rr: "remove_redir rop items = Some (tgt, pre @ post)"
    by (rule remove_redir_first [OF assms(3,4)])
  have "rop \<in> ops_of items" unfolding assms(3) by (induction pre rule: wf_items.induct) simp_all
  moreover have "ops_of items \<subseteq> set redir_ops"
    using assms(2) by (induction items rule: wf_items.induct) auto
  ultimately have rop: "rop \<in> set redir_ops" by blast
  have cm: "l_cmds (locals0 (tokens_of items)) = tokens_of items" by simp
  from redirections_open_fails [OF assms(2) rop rr assms(5,6,7) cm,
      where w = "write_stream SysStdout ''$ '' w"]
  obtain e' fr' w1 where r: "redirections env (locals0 (tokens_of items))
      (write_stream SysStdout ''$ '' w) = (Some (OSError e'), fr', w1)"
    and o: "\<exists>(r, t) \<in> set (redirs items). open_error env t (mode_of r) = Some e'"
    by blast
  from main_extraction_error [OF assms(1) r, of rest] o show ?thesis by blast
qed

text \<open>
  The theorem at the line \<^verbatim>\<open>echo 2> e >> /nodir/x\<close>, followed by a line \<^verbatim>\<open>echo next\<close>:
  the file \<^verbatim>\<open>e\<close> is opened and closed again, \<^verbatim>\<open>/nodir/x\<close> cannot be opened.
\<close>

theorem C2_open_failure_ends_main_witness:
  "shlex_split ''echo 2> e >> /nodir/x''
     = Inr (tokens_of ([Word ''echo'', Redir ''2>'' ''e''] @ Redir ''>>'' ''/nodir/x'' # []))
   \<and> wf_items ([Word ''echo'', Redir ''2>'' ''e''] @ Redir ''>>'' ''/nodir/x'' # [])
   \<and> ''>>'' \<notin> ops_of [Word ''echo'', Redir ''2>'' ''e'']
   \<and> open_error example_env ''/nodir/x'' (mode_of ''>>'') = Some FileNotFoundError
   \<and> (\<exists>e'. fst (main example_env [''echo 2> e >> /nodir/x'', ''echo next''] example_world)
         = OSError e')
   \<and> main example_env [''echo 2> e >> /nodir/x'', ''echo next''] example_world
       = (OSError FileNotFoundError,
          example_world\<lparr>w_stdout := ''$ '',
            w_files := [\<lparr>f_path = ''e'', f_mode = ModeW, f_closed = True, f_written = []\<rparr>]\<rparr>)"
proof -
  let ?pre = "[Word ''echo'', Redir ''2>'' ''e'']"
  let ?items = "?pre @ Redir ''>>'' ''/nodir/x'' # []"
  have h1: "shlex_split ''echo 2> e >> /nodir/x'' = Inr (tokens_of ?items)" by code_simp
  have h2: "wf_items ?items" by (simp add: redir_ops_def)
  have h3: "?items = ?pre @ Redir ''>>'' ''/nodir/x'' # []" by simp
  have h4: "''>>'' \<notin> ops_of ?pre" by (simp add: ops_of_def)
  have h5: "''>>'' = ''1>'' \<longrightarrow> ''>'' \<notin> ops_of ?items" by simp
  have h6: "''>>'' = ''1>>'' \<longrightarrow> ''>>'' \<notin> ops_of ?items" by simp
  have h7: "open_error example_env ''/nodir/x'' (mode_of ''>>'') = Some FileNotFoundError"
    by (simp add: example_env_def)
  from C2_open_failure_ends_main [OF h1 h2 h3 h4 h5 h6 h7, of "[''echo next'']" example_world]
  have m: "\<exists>e'. fst (main example_env [''echo 2> e >> /nodir/x'', ''echo next''] example_world)
         = OSError e'"
    by auto
  have v: "main example_env [''echo 2> e >> /nodir/x'', ''echo next''] example_world
       = (OSError FileNotFoundError,
          example_world\<lparr>w_stdout := ''$ '',
            w_files := [\<lparr>f_path = ''e'', f_mode = ModeW, f_closed = True, f_written = []\<rparr>]\<rparr>)"
    by code_simp
  from h1 h2 h4 h7 m v show ?thesis by (intro conjI)
qed

text \<open>
  The claim as written fails for the line \<^verbatim>\<open>echo hi > /nodir/x\<close>: the loop does not go
  on. \<^verbatim>\<open>main\<close> ends with FileNotFoundError after one prompt, the shell has written nothing
  to the error stream, and the line \<^verbatim>\<open>echo next\<close> that follows is never handled.
\<close>

theorem C2_counterexample:
  "main example_env [''echo hi > /nodir/x'', ''echo next''] example_world
     = (OSError FileNotFoundError, example_world\<lparr>w_stdout := ''$ ''\<rparr>)
   \<and> w_stderr (snd (main example_env [''echo hi > /nodir/x'', ''echo next''] example_world)) = []"
  by code_simp

subsection \<open>A redirection operator as the last token (C10)\<close>

text \<open>
  Claim C10, as the code has it. The line consists of words and redirections, every
  operator followed by its target, and then the operator \<open>rop\<close> as the last token;
  \<open>rop\<close> does not occur before, the shell looks for it (for \<^verbatim>\<open>1>\<close> only when the line
  has no \<^verbatim>\<open>>\<close>, for \<^verbatim>\<open>1>>\<close> only when it has no \<^verbatim>\<open>>>\<close>), and the targets of the
  redirections that the statements before the one for \<open>rop\<close> handle can be opened. Then
  the statement for \<open>rop\<close> reads the token after the last one, and \<^verbatim>\<open>main\<close> ends with
  IndexError. Until then the shell has written the prompt and nothing else to the standard
  output, nothing to the standard error, has changed no directory and spawned no process
  (\<^verbatim>\<open>handle_all\<close> was not called), and every file object opened for the line is closed.
\<close>

theorem C10_trailing_operator_IndexError:
  assumes "shlex_split line = Inr (tokens_of items @ [rop])"
    and "wf_items items" and "rop \<in> set redir_ops" and "rop \<notin> ops_of items"
    and "rop = ''1>'' \<longrightarrow> ''>'' \<notin> ops_of items"
    and "rop = ''1>>'' \<longrightarrow> ''>>'' \<notin> ops_of items"
    and "\<forall>(r, t) \<in> set (redirs items).
           step_of r < step_of rop \<longrightarrow> open_error env t (mode_of r) = None"
  shows "\<exists>w'. main env (line # rest) w = (IndexError, w')
    \<and> w_stdout w' = w_stdout w @ ''$ '' \<and> w_stderr w' = w_stderr w
    \<and> w_cwd w' = w_cwd w \<and> w_spawned w' = w_spawned w
    \<and> (\<exists>new. w_files w' = w_files w @ new \<and> (\<forall>f \<in> set new. f_closed f))"
proof -
  from redirections_trailing [OF assms(2-7), where fr = "locals0 (tokens_of items @ [rop])"
      and w = "write_stream SysStdout ''$ '' w"]
  obtain fr' w1 where "redirections env (locals0 (tokens_of items @ [rop]))
      (write_stream SysStdout ''$ '' w) = (Some IndexError, fr', w1)"
    by auto
  from main_extraction_error [OF assms(1) this] show ?thesis .
qed

text \<open>
  The theorem at the line \<^verbatim>\<open>echo > a 2>\<close>, followed by a line \<^verbatim>\<open>echo next\<close>: the file
  \<^verbatim>\<open>a\<close> is opened for \<^verbatim>\<open>>\<close> and closed again, and \<^verbatim>\<open>2>\<close> has no token after it. And
  at the line \<^verbatim>\<open>echo 1> a >\<close>, where the statement for \<^verbatim>\<open>>\<close> comes before any file is
  opened.
\<close>

theorem C10_trailing_operator_IndexError_witness:
  "shlex_split ''echo > a 2>'' = Inr (tokens_of [Word ''echo'', Redir ''>'' ''a''] @ [''2>''])
   \<and> wf_items [Word ''echo'', Redir ''>'' ''a'']
   \<and> ''2>'' \<in> set redir_ops
   \<and> ''2>'' \<notin> ops_of [Word ''echo'', Redir ''>'' ''a'']
   \<and> redirs [Word ''echo'', Redir ''>'' ''a''] = [(''>'', ''a'')]
   \<and> step_of ''>'' < step_of ''2>''
   \<and> open_error example_env ''a'' (mode_of ''>'') = None
   \<and> fst (main example_env [''echo > a 2>'', ''echo next''] example_world) = IndexError
   \<and> snd (main example_env [''echo > a 2>'', ''echo next''] example_world)
       = example_world\<lparr>w_stdout := ''$ '',
           w_files := [\<lparr>f_path = ''a'', f_mode = ModeW, f_closed = True, f_written = []\<rparr>]\<rparr>
   \<and> shlex_split ''echo 1> a >'' = Inr (tokens_of [Word ''echo'', Redir ''1>'' ''a''] @ [''>''])
   \<and> wf_items [Word ''echo'', Redir ''1>'' ''a'']
   \<and> ''>'' \<in> set redir_ops
   \<and> ''>'' \<notin> ops_of [Word ''echo'', Redir ''1>'' ''a'']
   \<and> redirs [Word ''echo'', Redir ''1>'' ''a''] = [(''1>'', ''a'')]
   \<and> \<not> step_of ''1>'' < step_of ''>''
   \<and> fst (main example_env [''echo 1> a >'', ''echo next''] example_world) = IndexError
   \<and> w_files (snd (main example_env [''echo 1> a >'', ''echo next''] example_world)) = []"
proof -
  let ?items = "[Word ''echo'', Redir ''>'' ''a'']"
  have h1: "shlex_split ''echo > a 2>'' = Inr (tokens_of ?items @ [''2>''])" by code_simp
  have h2: "wf_items ?items" by (simp add: redir_ops_def)
  have h3: "''2>'' \<in> set redir_ops" by (simp add: redir_ops_def)
  have h4: "''2>'' \<notin> ops_of ?items" by (simp add: ops_of_def)
  have h5: "''2>'' = ''1>'' \<longrightarrow> ''>'' \<notin> ops_of ?items" by simp
  have h6: "''2>'' = ''1>>'' \<longrightarrow> ''>>'' \<notin> ops_of ?items" by simp
  have r: "redirs ?items = [(''>'', ''a'')]" by simp
  have s: "step_of ''>'' < step_of ''2>''" by (simp add: step_of_def)
  have o: "open_error example_env ''a'' (mode_of ''>'') = None" by (simp add: example_env_def)
  have h7: "\<forall>(r, t) \<in> set (redirs ?items).
      step_of r < step_of ''2>'' \<longrightarrow> open_error example_env t (mode_of r) = None"
    using o by simp
  from C10_trailing_operator_IndexError [OF h1 h2 h3 h4 h5 h6 h7, of "[''echo next'']" example_world]
  have m: "fst (main example_env [''echo > a 2>'', ''echo next''] example_world) = IndexError"
    by auto
  have v: "snd (main example_env [''echo > a 2>'', ''echo next''] example_world)
       = example_world\<lparr>w_stdout := ''$ '',
           w_files := [\<lparr>f_path = ''a'', f_mode = ModeW, f_closed = True, f_written = []\<rparr>]\<rparr>"
    by code_simp
  let ?items' = "[Word ''echo'', Redir ''1>'' ''a'']"
  have k1: "shlex_split ''echo 1> a >'' = Inr (tokens_of ?items' @ [''>''])" by code_simp
  have k2: "wf_items ?items'" by (simp add: redir_ops_def)
  have k3: "''>'' \<in> set redir_ops" by (simp add: redir_ops_def)
  have k4: "''>'' \<notin> ops_of ?items'" by (simp add: ops_of_def)
  have k5: "''>'' = ''1>'' \<longrightarrow> ''>'' \<notin> ops_of ?items'" by simp
  have k6: "''>'' = ''1>>'' \<longrightarrow> ''>>'' \<notin> ops_of ?items'" by simp
  have r': "redirs ?items' = [(''1>'', ''a'')]" by simp
  have s': "\<not> step_of ''1>'' < step_of ''>''" by (simp add: step_of_def)
  have k7: "\<forall>(r, t) \<in> set (redirs ?items').
      step_of r < step_of ''>'' \<longrightarrow> open_error example_env t (mode_of r) = None"
    using s' by simp
  from C10_trailing_operator_IndexError [OF k1 k2 k3 k4 k5 k6 k7, of "[''echo next'']" example_world]
  have m': "fst (main example_env [''echo 1> a >'', ''echo next''] example_world) = IndexError"
    by auto
  have v': "w_files (snd (main example_env [''echo 1> a >'', ''echo next''] example_world)) = []"
    by code_simp
  from h1 h2 h3 h4 r s o m v k1 k2 k3 k4 r' s' m' v' show ?thesis by (intro conjI)
qed

text \<open>
  The claim as written fails for the line \<^verbatim>\<open>echo > a >\<close>: the first \<^verbatim>\<open>>\<close> is the one
  that is looked up, the last token is given to \<^verbatim>\<open>echo\<close>, and the loop goes on with the
  next line. The same holds for \<^verbatim>\<open>echo > a 1>\<close>, since \<^verbatim>\<open>1>\<close> is looked for only when
  there is no \<^verbatim>\<open>>\<close>. And for \<^verbatim>\<open>echo > /nodir/x 2>\<close> the error that ends \<^verbatim>\<open>main\<close> is the
  one of the \<^verbatim>\<open>open\<close> for \<^verbatim>\<open>>\<close>, which comes first.
\<close>

theorem C10_counterexample:
  "fst (main example_env [''echo > a >'', ''echo next''] example_world) = EOFError
   \<and> w_stdout (snd (main example_env [''echo > a >'', ''echo next''] example_world))
       = ''$ $ next'' @ newline @ ''$ ''
   \<and> map f_written (w_files (snd (main example_env [''echo > a >'', ''echo next'']
        example_world))) = [''>'' @ newline]
   \<and> fst (main example_env [''echo > a 1>'', ''echo next''] example_world) = EOFError
   \<and> map f_written (w_files (snd (main example_env [''echo > a 1>'', ''echo next'']
        example_world))) = [''1>'' @ newline]
   \<and> fst (main example_env [''echo > /nodir/x 2>'', ''echo next''] example_world)
       = OSError FileNotFoundError"
  by code_simp

subsection \<open>What the extraction takes out\<close>

lemma and_then_None:
  "and_then r f = (None, fr, w) \<longleftrightarrow> (\<exists>fr0 w0. r = (None, fr0, w0) \<and> f fr0 w0 = (None, fr, w))"
  by (cases r) (auto simp: and_then_def split: option.splits)

lemma count_list_remove_pair:
  "list_index xs x = Some i \<Longrightarrow> Suc i < length xs \<Longrightarrow>
   count_list xs t = count_list (take i xs @ drop (i + 2) xs) t
     + (if x = t then 1 else 0) + (if xs ! Suc i = t then 1 else 0)"
proof (induction xs arbitrary: i)
  case Nil
  then show ?case by simp
next
  case (Cons y ys)
  show ?case
  proof (cases "y = x")
    case True
    with Cons.prems obtain z zs where "ys = z # zs" "i = 0"
      by (cases ys) auto
    with True show ?thesis by simp
  next
    case False
    with Cons.prems obtain j where j: "list_index ys x = Some j" "i = Suc j"
      by auto
    with Cons.prems have "Suc j < length ys" by simp
    from Cons.IH [OF j(1) this] j(2) show ?thesis by simp
  qed
qed

lemma shrinks_refl [simp]: "shrinks cmds cmds"
  by (simp add: shrinks_def)

lemma shrinks_notin: "shrinks cmds cmds' \<Longrightarrow> t \<notin> set cmds \<Longrightarrow> t \<notin> set cmds'"
  unfolding shrinks_def count_list_0_iff [symmetric] using le_zero_eq by metis

lemma shrinks_one: "shrinks cmds cmds' \<Longrightarrow> count_list cmds t \<le> 1 \<Longrightarrow> count_list cmds' t \<le> 1"
  unfolding shrinks_def using le_trans by blast

lemma redirect_shrinks:
  assumes "redirect env a to_err mode fr w = (None, fr', w')"
  shows "shrinks (l_cmds fr) (l_cmds fr')"
    and "count_list (l_cmds fr') a < count_list (l_cmds fr) a"
proof -
  from assms obtain i where i: "list_index (l_cmds fr) a = Some i"
    by (auto simp: redirect_def split: option.splits)
  with assms have len: "Suc i < length (l_cmds fr)"
    by (auto simp: redirect_def split: if_splits)
  from assms i len have c: "l_cmds fr' = take i (l_cmds fr) @ drop (i + 2) (l_cmds fr)"
    by (auto simp: redirect_def split: if_splits sum.splits)
  show "shrinks (l_cmds fr) (l_cmds fr')"
    unfolding shrinks_def c using count_list_remove_pair [OF i len] by simp
  show "count_list (l_cmds fr') a < count_list (l_cmds fr) a"
    unfolding c using count_list_remove_pair [OF i len, of a] by simp
qed

lemma step_fn_clears:
  assumes ok: "step_fn env (a, b, to_err, mode) fr w = (None, fr', w')"
    and one: "count_list (l_cmds fr) a \<le> 1" "count_list (l_cmds fr) b \<le> 1"
    and excl: "\<not> (a \<in> set (l_cmds fr) \<and> b \<in> set (l_cmds fr) \<and> a \<noteq> b)"
  shows "shrinks (l_cmds fr) (l_cmds fr') \<and> a \<notin> set (l_cmds fr') \<and> b \<notin> set (l_cmds fr')"
proof (cases "a \<in> set (l_cmds fr)")
  case True
  with ok have r: "redirect env a to_err mode fr w = (None, fr', w')" by simp
  from redirect_shrinks [OF r] one(1) have s: "shrinks (l_cmds fr) (l_cmds fr')"
    and "count_list (l_cmds fr') a = 0" by simp_all
  then have na: "a \<notin> set (l_cmds fr')" by (simp add: count_list_0_iff)
  have "b \<notin> set (l_cmds fr')"
  proof (cases "a = b")
    case True with na show ?thesis by simp
  next
    case False
    with True excl have "b \<notin> set (l_cmds fr)" by simp
    with s show ?thesis by (rule shrinks_notin)
  qed
  with s na show ?thesis by simp
next
  case na: False
  show ?thesis
  proof (cases "b \<in> set (l_cmds fr)")
    case True
    with na ok have r: "redirect env b to_err mode fr w = (None, fr', w')" by simp
    from redirect_shrinks [OF r] one(2) have s: "shrinks (l_cmds fr) (l_cmds fr')"
      and "count_list (l_cmds fr') b = 0" by simp_all
    then have "b \<notin> set (l_cmds fr')" by (simp add: count_list_0_iff)
    with s shrinks_notin [OF s na] show ?thesis by simp
  next
    case False
    with na ok show ?thesis by simp
  qed
qed

lemma redirections_clears:
  assumes one: "\<forall>rop \<in> set redir_ops. count_list (l_cmds fr) rop \<le> 1"
    and x1: "\<not> (''>'' \<in> set (l_cmds fr) \<and> ''1>'' \<in> set (l_cmds fr))"
    and x2: "\<not> (''>>'' \<in> set (l_cmds fr) \<and> ''1>>'' \<in> set (l_cmds fr))"
    and ok: "redirections env fr w = (None, fr', w')"
  shows "set (l_cmds fr') \<inter> set redir_ops = {}"
proof -
  from ok obtain fr1 w1 fr2 w2 fr3 w3 where
    s1: "step_fn env (''>'', ''1>'', False, ModeW) fr w = (None, fr1, w1)" and
    s2: "step_fn env (''2>'', ''2>'', True, ModeW) fr1 w1 = (None, fr2, w2)" and
    s3: "step_fn env (''>>'', ''1>>'', False, ModeA) fr2 w2 = (None, fr3, w3)" and
    s4: "step_fn env (''2>>'', ''2>>'', True, ModeA) fr3 w3 = (None, fr', w')"
    unfolding redirections_run_steps the_steps_def run_steps.simps and_then_None by blast
  have ops: "''>'' \<in> set redir_ops" "''1>'' \<in> set redir_ops" "''>>'' \<in> set redir_ops"
    "''1>>'' \<in> set redir_ops" "''2>'' \<in> set redir_ops" "''2>>'' \<in> set redir_ops"
    by (simp_all add: redir_ops_def)
  from one have c0: "count_list (l_cmds fr) t \<le> 1" if "t \<in> set redir_ops" for t
    using that by simp
  from step_fn_clears [OF s1 c0 [OF ops(1)] c0 [OF ops(2)]] x1
  have e1: "shrinks (l_cmds fr) (l_cmds fr1)"
    and a1: "''>'' \<notin> set (l_cmds fr1)" "''1>'' \<notin> set (l_cmds fr1)"
    by simp_all
  have c1: "count_list (l_cmds fr1) t \<le> 1" if "t \<in> set redir_ops" for t
    using shrinks_one [OF e1 c0 [OF that]] .
  from step_fn_clears [OF s2 c1 [OF ops(5)] c1 [OF ops(5)]]
  have e2: "shrinks (l_cmds fr1) (l_cmds fr2)" and a2: "''2>'' \<notin> set (l_cmds fr2)"
    by simp_all
  have c2: "count_list (l_cmds fr2) t \<le> 1" if "t \<in> set redir_ops" for t
    using shrinks_one [OF e2 c1 [OF that]] .
  have x2': "\<not> (''>>'' \<in> set (l_cmds fr2) \<and> ''1>>'' \<in> set (l_cmds fr2) \<and> ''>>'' \<noteq> ''1>>'')"
    using x2 shrinks_notin [OF e1] shrinks_notin [OF e2] by blast
  from step_fn_clears [OF s3 c2 [OF ops(3)] c2 [OF ops(4)] x2']
  have e3: "shrinks (l_cmds fr2) (l_cmds fr3)"
    and a3: "''>>'' \<notin> set (l_cmds fr3)" "''1>>'' \<notin> set (l_cmds fr3)"
    by simp_all
  have c3: "count_list (l_cmds fr3) t \<le> 1" if "t \<in> set redir_ops" for t
    using shrinks_one [OF e3 c2 [OF that]] .
  from step_fn_clears [OF s4 c3 [OF ops(6)] c3 [OF ops(6)]]
  have e4: "shrinks (l_cmds fr3) (l_cmds fr')" and a4: "''2>>'' \<notin> set (l_cmds fr')"
    by simp_all
  have "''>'' \<notin> set (l_cmds fr')" "''1>'' \<notin> set (l_cmds fr')"
    using a1 shrinks_notin [OF e2] shrinks_notin [OF e3] shrinks_notin [OF e4] by blast+
  moreover have "''2>'' \<notin> set (l_cmds fr')"
    using a2 shrinks_notin [OF e3] shrinks_notin [OF e4] by blast
  moreover have "''>>'' \<notin> set (l_cmds fr')" "''1>>'' \<notin> set (l_cmds fr')"
    using a3 shrinks_notin [OF e4] by blast+
  ultimately show ?thesis
    using a4 by (auto simp: redir_ops_def)
qed

subsection \<open>What the extraction leaves of a well-formed line\<close>

lemma ops_of_subset: "wf_items items \<Longrightarrow> ops_of items \<subseteq> set redir_ops"
  by (induction items rule: wf_items.induct) auto

lemma tokens_of_words: "redirs items = [] \<Longrightarrow> tokens_of items = words items"
  by (induction items rule: wf_items.induct) simp_all

lemma wf_distinct_ops:
  "wf_items items \<Longrightarrow> \<forall>rop \<in> set redir_ops. count_list (tokens_of items) rop \<le> 1
     \<Longrightarrow> distinct (map fst (redirs items))"
proof (induction items rule: wf_items.induct)
  case 1
  then show ?case by simp
next
  case (2 s items)
  then show ?case by (auto split: if_splits)
next
  case (3 rop tgt items)
  from 3(2) have wf: "wf_items items" and rop: "rop \<in> set redir_ops" by simp_all
  from 3(2) rop have ne: "tgt \<noteq> rop" by auto
  from 3(3) rop have "count_list (tokens_of (Redir rop tgt # items)) rop \<le> 1" by blast
  with ne have "count_list (tokens_of items) rop = 0" by simp
  then have "rop \<notin> set (tokens_of items)" by (simp add: count_list_0_iff)
  with tokens_ops [OF wf rop] have n: "rop \<notin> ops_of items" by simp
  have "\<forall>r \<in> set redir_ops. count_list (tokens_of items) r \<le> 1"
  proof
    fix r assume "r \<in> set redir_ops"
    with 3(3) have "count_list (tokens_of (Redir rop tgt # items)) r \<le> 1" by blast
    then show "count_list (tokens_of items) r \<le> 1" by (simp split: if_splits)
  qed
  from 3(1) [OF wf this] n show ?case by (simp add: ops_of_def)
qed

lemma filter_step_other:
  "k \<noteq> j \<Longrightarrow> filter (\<lambda>(r, t). step_of r = k) (filter (\<lambda>(r, t). step_of r \<noteq> j) rs)
     = filter (\<lambda>(r, t). step_of r = k) rs"
  by (induction rs) auto

lemma step_of_range: "step_of r = 1 \<or> step_of r = 2 \<or> step_of r = 3 \<or> step_of r = 4"
  by (simp add: step_of_def)

lemma filter_step_all:
  "filter (\<lambda>(r, t). step_of r \<noteq> 4) (filter (\<lambda>(r, t). step_of r \<noteq> 3)
     (filter (\<lambda>(r, t). step_of r \<noteq> 2)
       (filter (\<lambda>(r :: string, t :: string). step_of r \<noteq> 1) rs))) = []"
proof -
  have "\<not> (step_of r \<noteq> 1 \<and> step_of r \<noteq> 2 \<and> step_of r \<noteq> 3 \<and> step_of r \<noteq> 4)" for r
    using step_of_range [of r] by blast
  then show ?thesis by (auto simp: filter_empty_conv)
qed

text \<open>
  The statement for the operators of place \<open>k\<close>, on a well-formed line in which every
  operator occurs once at most and every target can be opened: it opens the target of
  the redirection of that place, if there is one, and takes the redirection out.
\<close>

lemma step_fn_removes:
  assumes wf: "wf_items items" and cm: "l_cmds fr = tokens_of items"
    and d: "distinct (map fst (redirs items))"
    and a: "a \<in> set redir_ops" and b: "b \<in> set redir_ops"
    and m: "mode_of a = mode" "mode_of b = mode"
    and k: "\<forall>r \<in> set redir_ops. (r = a \<or> r = b) \<longleftrightarrow> step_of r = k"
    and x: "\<not> (a \<in> ops_of items \<and> b \<in> ops_of items \<and> a \<noteq> b)"
    and ok: "\<forall>(r, t) \<in> set (redirs items). open_error env t (mode_of r) = None"
  shows "\<exists>fr' w' rest. step_fn env (a, b, to_err, mode) fr w = (None, fr', w')
     \<and> l_cmds fr' = tokens_of rest \<and> wf_items rest \<and> words rest = words items
     \<and> redirs rest = filter (\<lambda>(r, t). step_of r \<noteq> k) (redirs items)
     \<and> opened w' = opened w
         @ map (\<lambda>(r, t). (t, mode_of r)) (filter (\<lambda>(r, t). step_of r = k) (redirs items))"
proof -
  have cm': "l_cmds fr = tokens_of items @ []" using cm by simp
  have sfx: "a \<notin> set [] \<and> b \<notin> set []" by simp
  have inops: "r \<in> set redir_ops" if "(r, t) \<in> set (redirs items)" for r t
    using that ops_of_subset [OF wf] by (force simp: ops_of_def)
  from wf a b cm' sfx show ?thesis
  proof (cases rule: step_fn_cases [where env = env and to_err = to_err and mode = mode and w = w])
    case pass
    have no: "step_of r \<noteq> k" if "(r, t) \<in> set (redirs items)" for r t
    proof -
      from that have "r \<in> ops_of items" by (force simp: ops_of_def)
      with pass(1,2) have "r \<noteq> a" "r \<noteq> b" by auto
      with k inops [OF that] show ?thesis by blast
    qed
    have f1: "filter (\<lambda>(r, t). step_of r \<noteq> k) (redirs items) = redirs items"
      using no by (auto simp: filter_id_conv)
    have f2: "filter (\<lambda>(r, t). step_of r = k) (redirs items) = []"
      using no by (auto simp: filter_empty_conv)
    have "opened w = opened w
         @ map (\<lambda>(r, t). (t, mode_of r)) (filter (\<lambda>(r, t). step_of r = k) (redirs items))"
      by (simp only: f2 list.map append_Nil2)
    with pass(3) cm wf f1 [symmetric] show ?thesis by blast
  next
    case (fail rop tgt rest e)
    from remove_redir_subset(3) [OF fail(2)] ok
    have "open_error env tgt (mode_of rop) = None" by blast
    moreover from fail(1) m have "mode_of rop = mode" by auto
    ultimately show ?thesis using fail(3) by simp
  next
    case (fire rop tgt rest fr' w')
    from remove_redir_Some(1) [OF fire(2)] obtain pre post where
      dec: "redirs items = pre @ (rop, tgt) # post" "redirs rest = pre @ post"
      by blast
    from fire(1) m a b have mo: "mode_of rop = mode" and rop: "rop \<in> set redir_ops" by auto
    from dec(1) have ropin: "rop \<in> ops_of items" by (simp add: ops_of_def)
    from fire(1) k rop have sk: "step_of rop = k" by blast
    from d have dd: "rop \<notin> fst ` set pre" "rop \<notin> fst ` set post"
      unfolding dec(1) by simp_all
    have no: "step_of r \<noteq> k" if "(r, t) \<in> set pre \<or> (r, t) \<in> set post" for r t
    proof -
      from that have "r \<in> fst ` set pre \<or> r \<in> fst ` set post" by force
      with dd have ne: "r \<noteq> rop" by blast
      from that have rin: "(r, t) \<in> set (redirs items)" unfolding dec(1) by auto
      then have ro: "r \<in> ops_of items" unfolding ops_of_def by force
      have "r \<noteq> a"
      proof
        assume "r = a"
        with ro fire(1) have "rop = a" by auto
        with \<open>r = a\<close> ne show False by simp
      qed
      moreover have "r \<noteq> b"
      proof
        assume "r = b"
        with ne fire(1) have "rop = a" "a \<noteq> b" by auto
        with ropin ro \<open>r = b\<close> x show False by simp
      qed
      ultimately show ?thesis using k inops [OF rin] by blast
    qed
    let ?P = "\<lambda>(r :: string, t :: string). step_of r \<noteq> k"
    let ?Q = "\<lambda>(r :: string, t :: string). step_of r = k"
    have p1: "filter ?P pre = pre" and p2: "filter ?P post = post"
      unfolding filter_id_conv using no by blast+
    have q1: "filter ?Q pre = []" and q2: "filter ?Q post = []"
      unfolding filter_empty_conv using no by blast+
    have p3: "filter ?P [(rop, tgt)] = []" and q3: "filter ?Q [(rop, tgt)] = [(rop, tgt)]"
      using sk by simp_all
    have "filter ?P (redirs items) = filter ?P pre @ filter ?P [(rop, tgt)] @ filter ?P post"
      unfolding dec(1) by (simp only: filter_append [symmetric] append.simps)
    then have f1: "filter ?P (redirs items) = pre @ post"
      by (simp only: p1 p2 p3 append_Nil append_Nil2)
    have "filter ?Q (redirs items) = filter ?Q pre @ filter ?Q [(rop, tgt)] @ filter ?Q post"
      unfolding dec(1) by (simp only: filter_append [symmetric] append.simps)
    then have f2: "filter ?Q (redirs items) = [(rop, tgt)]"
      by (simp only: q1 q2 q3 append_Nil append_Nil2)
    from fire(4,5,6) remove_redir_Some(2,3) [OF fire(2)] wf dec(2) f1 f2 mo
    have "step_fn env (a, b, to_err, mode) fr w = (None, fr', w')
     \<and> l_cmds fr' = tokens_of rest \<and> wf_items rest \<and> words rest = words items
     \<and> redirs rest = filter (\<lambda>(r, t). step_of r \<noteq> k) (redirs items)
     \<and> opened w' = opened w
         @ map (\<lambda>(r, t). (t, mode_of r)) (filter (\<lambda>(r, t). step_of r = k) (redirs items))"
      by (simp del: step_fn.simps)
    then show ?thesis by blast
  qed
qed

lemma redirections_removes:
  assumes wf: "wf_items items" and cm: "l_cmds fr = tokens_of items"
    and d: "distinct (map fst (redirs items))"
    and x1: "\<not> (''>'' \<in> ops_of items \<and> ''1>'' \<in> ops_of items)"
    and x2: "\<not> (''>>'' \<in> ops_of items \<and> ''1>>'' \<in> ops_of items)"
    and ok: "\<forall>(r, t) \<in> set (redirs items). open_error env t (mode_of r) = None"
  shows "\<exists>fr' w'. redirections env fr w = (None, fr', w') \<and> l_cmds fr' = words items
     \<and> opened w' = opened w @ opened_for (redirs items)"
proof -
  let ?g = "map (\<lambda>(r, t). (t, mode_of r))"
  let ?is = "\<lambda>k. filter (\<lambda>(r :: string, t :: string). step_of r = k)"
  let ?not = "\<lambda>k. filter (\<lambda>(r :: string, t :: string). step_of r \<noteq> k)"
  have ops: "''>'' \<in> set redir_ops" "''1>'' \<in> set redir_ops" "''>>'' \<in> set redir_ops"
    "''1>>'' \<in> set redir_ops" "''2>'' \<in> set redir_ops" "''2>>'' \<in> set redir_ops"
    by (simp_all add: redir_ops_def)
  have k1: "\<forall>r \<in> set redir_ops. (r = ''>'' \<or> r = ''1>'') \<longleftrightarrow> step_of r = 1"
    and k2: "\<forall>r \<in> set redir_ops. (r = ''2>'' \<or> r = ''2>'') \<longleftrightarrow> step_of r = 2"
    and k3: "\<forall>r \<in> set redir_ops. (r = ''>>'' \<or> r = ''1>>'') \<longleftrightarrow> step_of r = 3"
    and k4: "\<forall>r \<in> set redir_ops. (r = ''2>>'' \<or> r = ''2>>'') \<longleftrightarrow> step_of r = 4"
    by (simp_all add: redir_ops_def step_of_def)
  have x1': "\<not> (''>'' \<in> ops_of items \<and> ''1>'' \<in> ops_of items \<and> ''>'' \<noteq> ''1>'')"
    using x1 by simp
  from step_fn_removes [OF wf cm d ops(1,2) _ _ k1 x1' ok, of ModeW False w]
  obtain fr1 w1 r1 where s1: "step_fn env (''>'', ''1>'', False, ModeW) fr w = (None, fr1, w1)"
    and c1: "l_cmds fr1 = tokens_of r1" and wf1: "wf_items r1" and wd1: "words r1 = words items"
    and rd1: "redirs r1 = ?not 1 (redirs items)"
    and o1: "opened w1 = opened w @ ?g (?is 1 (redirs items))"
    by (auto simp: mode_of_def)
  have d1: "distinct (map fst (redirs r1))" unfolding rd1 using d by (rule distinct_map_filter)
  have ok1: "\<forall>(r, t) \<in> set (redirs r1). open_error env t (mode_of r) = None"
    unfolding rd1 using ok by auto
  from step_fn_removes [OF wf1 c1 d1 ops(5,5) _ _ k2 _ ok1, of ModeW True w1]
  obtain fr2 w2 r2 where s2: "step_fn env (''2>'', ''2>'', True, ModeW) fr1 w1 = (None, fr2, w2)"
    and c2: "l_cmds fr2 = tokens_of r2" and wf2: "wf_items r2" and wd2: "words r2 = words r1"
    and rd2: "redirs r2 = ?not 2 (redirs r1)"
    and o2: "opened w2 = opened w1 @ ?g (?is 2 (redirs r1))"
    by (auto simp: mode_of_def)
  have d2: "distinct (map fst (redirs r2))" unfolding rd2 using d1 by (rule distinct_map_filter)
  have ok2: "\<forall>(r, t) \<in> set (redirs r2). open_error env t (mode_of r) = None"
    unfolding rd2 using ok1 by auto
  have sub2: "ops_of r2 \<subseteq> ops_of items"
    unfolding ops_of_def rd2 rd1 by auto
  have x2': "\<not> (''>>'' \<in> ops_of r2 \<and> ''1>>'' \<in> ops_of r2 \<and> ''>>'' \<noteq> ''1>>'')"
    using x2 sub2 by blast
  from step_fn_removes [OF wf2 c2 d2 ops(3,4) _ _ k3 x2' ok2, of ModeA False w2]
  obtain fr3 w3 r3 where s3: "step_fn env (''>>'', ''1>>'', False, ModeA) fr2 w2 = (None, fr3, w3)"
    and c3: "l_cmds fr3 = tokens_of r3" and wf3: "wf_items r3" and wd3: "words r3 = words r2"
    and rd3: "redirs r3 = ?not 3 (redirs r2)"
    and o3: "opened w3 = opened w2 @ ?g (?is 3 (redirs r2))"
    by (auto simp: mode_of_def)
  have d3: "distinct (map fst (redirs r3))" unfolding rd3 using d2 by (rule distinct_map_filter)
  have ok3: "\<forall>(r, t) \<in> set (redirs r3). open_error env t (mode_of r) = None"
    unfolding rd3 using ok2 by auto
  from step_fn_removes [OF wf3 c3 d3 ops(6,6) _ _ k4 _ ok3, of ModeA True w3]
  obtain fr4 w4 r4 where s4: "step_fn env (''2>>'', ''2>>'', True, ModeA) fr3 w3 = (None, fr4, w4)"
    and c4: "l_cmds fr4 = tokens_of r4" and wf4: "wf_items r4" and wd4: "words r4 = words r3"
    and rd4: "redirs r4 = ?not 4 (redirs r3)"
    and o4: "opened w4 = opened w3 @ ?g (?is 4 (redirs r3))"
    by (auto simp: mode_of_def)
  have run: "redirections env fr w = (None, fr4, w4)"
    unfolding redirections_run_steps the_steps_def run_steps.simps
    by (simp only: s1 s2 s3 s4 and_then_pass)
  have "redirs r4 = []" unfolding rd4 rd3 rd2 rd1 by (rule filter_step_all)
  then have cmds: "l_cmds fr4 = words items"
    using c4 wd1 wd2 wd3 wd4 by (simp add: tokens_of_words)
  have "opened w4 = opened w @ ?g (?is 1 (redirs items)) @ ?g (?is 2 (redirs items))
      @ ?g (?is 3 (redirs items)) @ ?g (?is 4 (redirs items))"
    unfolding o4 o3 o2 o1 rd3 rd2 rd1 by (simp add: filter_step_other del: filter_filter)
  then have "opened w4 = opened w @ opened_for (redirs items)"
    by (simp add: opened_for_def)
  with run cmds show ?thesis by blast
qed

subsection \<open>Tokens given to the dispatcher (C4)\<close>

text \<open>
  Claim C4, as the code has it, for a line in which every redirection operator occurs at
  most once, and neither \<^verbatim>\<open>>\<close> together with \<^verbatim>\<open>1>\<close> nor \<^verbatim>\<open>>>\<close> together with \<^verbatim>\<open>1>>\<close>.
  First, whenever \<^verbatim>\<open>handle_all\<close> is called for the line, the tokens it is called with
  contain no redirection operator. Second, when the line consists of words and
  redirections, every operator followed by a target that is not an operator, and every
  target can be opened, then \<^verbatim>\<open>handle_all\<close> is called, with the words of the line in
  their order: each operator is taken out together with the token after it and nothing
  else is. The files opened are those the tokens after the operators name, each in the
  mode of its operator.
\<close>

theorem C4_single_operators_all_removed:
  assumes "shlex_split line = Inr cmds"
    and "\<forall>rop \<in> set redir_ops. count_list cmds rop \<le> 1"
    and "\<not> (''>'' \<in> set cmds \<and> ''1>'' \<in> set cmds)"
    and "\<not> (''>>'' \<in> set cmds \<and> ''1>>'' \<in> set cmds)"
  shows "(\<forall>ts. dispatched_tokens env line w = Some ts \<longrightarrow> set ts \<inter> set redir_ops = {})
    \<and> (\<forall>items. cmds = tokens_of items \<and> wf_items items
          \<and> (\<forall>(rop, tgt) \<in> set (redirs items). open_error env tgt (mode_of rop) = None)
        \<longrightarrow> dispatched_tokens env line w = Some (words items)
          \<and> (\<exists>fr w'. redirections env (locals0 cmds) w = (None, fr, w')
                \<and> l_cmds fr = words items
                \<and> opened w' = opened w @ opened_for (redirs items)))"
proof (intro conjI allI impI)
  fix ts assume "dispatched_tokens env line w = Some ts"
  with assms(1) obtain fr w' where r: "redirections env (locals0 cmds) w = (None, fr, w')"
    and ts: "ts = l_cmds fr"
    by (auto simp: dispatched_tokens_def split: option.splits prod.splits)
  from redirections_clears [OF _ _ _ r] assms(2-4) ts
  show "set ts \<inter> set redir_ops = {}" by simp
next
  fix items
  assume h: "cmds = tokens_of items \<and> wf_items items
          \<and> (\<forall>(rop, tgt) \<in> set (redirs items). open_error env tgt (mode_of rop) = None)"
  then have wf: "wf_items items" and c: "cmds = tokens_of items"
    and ok: "\<forall>(rop, tgt) \<in> set (redirs items). open_error env tgt (mode_of rop) = None"
    by simp_all
  have ops: "''>'' \<in> set redir_ops" "''1>'' \<in> set redir_ops" "''>>'' \<in> set redir_ops"
    "''1>>'' \<in> set redir_ops"
    by (simp_all add: redir_ops_def)
  have d: "distinct (map fst (redirs items))"
    using wf assms(2) unfolding c by (rule wf_distinct_ops)
  have x1: "\<not> (''>'' \<in> ops_of items \<and> ''1>'' \<in> ops_of items)"
    using assms(3) unfolding c by (simp add: tokens_ops [OF wf] ops)
  have x2: "\<not> (''>>'' \<in> ops_of items \<and> ''1>>'' \<in> ops_of items)"
    using assms(4) unfolding c by (simp add: tokens_ops [OF wf] ops)
  have cm: "l_cmds (locals0 cmds) = tokens_of items" using c by simp
  from redirections_removes [OF wf cm d x1 x2 ok, of w]
  obtain fr w' where r: "redirections env (locals0 cmds) w = (None, fr, w')"
    and l: "l_cmds fr = words items"
    and o: "opened w' = opened w @ opened_for (redirs items)"
    by blast
  from assms(1) r l show "dispatched_tokens env line w = Some (words items)"
    by (simp add: dispatched_tokens_def)
  from r l o show "\<exists>fr w'. redirections env (locals0 cmds) w = (None, fr, w')
                \<and> l_cmds fr = words items
                \<and> opened w' = opened w @ opened_for (redirs items)"
    by blast
qed

text \<open>The theorem at the line \<^verbatim>\<open>echo hi > o 2>> e\<close>.\<close>

theorem C4_single_operators_all_removed_witness:
  "shlex_split ''echo hi > o 2>> e''
     = Inr (tokens_of [Word ''echo'', Word ''hi'', Redir ''>'' ''o'', Redir ''2>>'' ''e''])
   \<and> map (count_list (tokens_of [Word ''echo'', Word ''hi'', Redir ''>'' ''o'', Redir ''2>>'' ''e'']))
       redir_ops = [1, 0, 0, 0, 0, 1]
   \<and> wf_items [Word ''echo'', Word ''hi'', Redir ''>'' ''o'', Redir ''2>>'' ''e'']
   \<and> map (\<lambda>(rop, tgt). open_error example_env tgt (mode_of rop))
       (redirs [Word ''echo'', Word ''hi'', Redir ''>'' ''o'', Redir ''2>>'' ''e'']) = [None, None]
   \<and> dispatched_tokens example_env ''echo hi > o 2>> e'' example_world = Some [''echo'', ''hi'']
   \<and> set [''echo'', ''hi''] \<inter> set redir_ops = {}
   \<and> opened (snd (snd (redirections example_env
        (locals0 (tokens_of [Word ''echo'', Word ''hi'', Redir ''>'' ''o'', Redir ''2>>'' ''e'']))
        example_world))) = [(''o'', ModeW), (''e'', ModeA)]"
proof -
  let ?items = "[Word ''echo'', Word ''hi'', Redir ''>'' ''o'', Redir ''2>>'' ''e'']"
  let ?cmds = "tokens_of ?items"
  have h1: "shlex_split ''echo hi > o 2>> e'' = Inr ?cmds" by code_simp
  have h2': "map (count_list ?cmds) redir_ops = [1, 0, 0, 0, 0, 1]"
    by (simp add: redir_ops_def)
  have h2: "\<forall>rop \<in> set redir_ops. count_list ?cmds rop \<le> 1" by (simp add: redir_ops_def)
  have h3: "\<not> (''>'' \<in> set ?cmds \<and> ''1>'' \<in> set ?cmds)" by simp
  have h4: "\<not> (''>>'' \<in> set ?cmds \<and> ''1>>'' \<in> set ?cmds)" by simp
  have wf: "wf_items ?items" by (simp add: redir_ops_def)
  have ok': "map (\<lambda>(rop, tgt). open_error example_env tgt (mode_of rop)) (redirs ?items)
      = [None, None]"
    by (simp add: example_env_def)
  have ok: "\<forall>(rop, tgt) \<in> set (redirs ?items). open_error example_env tgt (mode_of rop) = None"
    by (simp add: example_env_def)
  have w0: "opened example_world = []" by (simp add: opened_def example_world_def)
  have wd: "words ?items = [''echo'', ''hi'']" by simp
  have of: "opened_for (redirs ?items) = [(''o'', ModeW), (''e'', ModeA)]"
    by (simp add: opened_for_def step_of_def mode_of_def)
  note T = C4_single_operators_all_removed [OF h1 h2 h3 h4, of example_env example_world]
  from T have p1: "\<forall>ts. dispatched_tokens example_env ''echo hi > o 2>> e'' example_world = Some ts
      \<longrightarrow> set ts \<inter> set redir_ops = {}"
    by (rule conjunct1)
  from T have "?cmds = tokens_of ?items \<and> wf_items ?items
          \<and> (\<forall>(rop, tgt) \<in> set (redirs ?items). open_error example_env tgt (mode_of rop) = None)
        \<longrightarrow> dispatched_tokens example_env ''echo hi > o 2>> e'' example_world
            = Some (words ?items)
          \<and> (\<exists>fr w'. redirections example_env (locals0 ?cmds) example_world = (None, fr, w')
                \<and> l_cmds fr = words ?items
                \<and> opened w' = opened example_world @ opened_for (redirs ?items))"
    by blast
  with wf ok have d0: "dispatched_tokens example_env ''echo hi > o 2>> e'' example_world
            = Some (words ?items)"
    and ex: "\<exists>fr w'. redirections example_env (locals0 ?cmds) example_world = (None, fr, w')
                \<and> l_cmds fr = words ?items
                \<and> opened w' = opened example_world @ opened_for (redirs ?items)"
    by blast+
  from d0 have d: "dispatched_tokens example_env ''echo hi > o 2>> e'' example_world
      = Some [''echo'', ''hi'']"
    by (simp only: wd)
  from p1 d have n: "set [''echo'', ''hi''] \<inter> set redir_ops = {}" by blast
  from ex have o: "opened (snd (snd (redirections example_env (locals0 ?cmds) example_world)))
      = [(''o'', ModeW), (''e'', ModeA)]"
    by (auto simp only: w0 of append_Nil snd_conv)
  from h1 h2' wf ok' d n o show ?thesis by (intro conjI)
qed

text \<open>
  The claim as written fails for the line \<^verbatim>\<open>echo > a > b\<close>, where \<^verbatim>\<open>>\<close> occurs twice:
  only its first occurrence is looked up, and \<^verbatim>\<open>handle_all\<close> is called with the tokens
  \<^verbatim>\<open>echo\<close>, \<^verbatim>\<open>>\<close>, \<^verbatim>\<open>b\<close>. For \<^verbatim>\<open>echo > a 1> b\<close> it is called with \<^verbatim>\<open>echo\<close>, \<^verbatim>\<open>1>\<close>,
  \<^verbatim>\<open>b\<close>, since \<^verbatim>\<open>1>\<close> is looked for only when there is no \<^verbatim>\<open>>\<close>.
\<close>

theorem C4_counterexample:
  "dispatched_tokens example_env ''echo > a > b'' example_world = Some [''echo'', ''>'', ''b'']
   \<and> dispatched_tokens example_env ''echo > a 1> b'' example_world = Some [''echo'', ''1>'', ''b'']"
  by code_simp

end
